theory Spec2Isabelle
  imports Main "HOL-Library.Word"
begin

section \<open>The CLI server on the UART service (src/cli/cli\_uart.cpp)\<close>

text \<open>
  The class \<open>Thread::Cli::Uart\<close> owns a receive line buffer and a transmit ring buffer.
  Bytes are 8-bit words. The counters \<open>mRxLength\<close>, \<open>mTxHead\<close>, \<open>mTxLength\<close> and
  \<open>mSendLength\<close> are 16-bit unsigned, like the locals \<open>remaining\<close>, \<open>tail\<close> and
  \<open>aBufLength\<close> that the code computes them with (the members themselves are declared
  in cli\_uart.hpp). They are modelled as natural numbers, and every assignment to one of
  them goes through \<open>u16\<close>, the conversion of the C++ \<open>int\<close> value of the right-hand
  side to \<open>uint16_t\<close> (reduction modulo 65536). The arithmetic of the right-hand sides
  is the arithmetic of \<open>int\<close> (at least 32 bits), as the integer promotions of C++
  make it; on the non-negative operands that occur, the \<open>%\<close> of C++ is \<open>mod\<close>.
\<close>

type_synonym byte = "8 word"

definition u16 :: "int \<Rightarrow> nat" where
  "u16 x = nat (x mod 65536)"

text \<open>
  The enumerators \<open>kRxBufferSize\<close> and \<open>kTxBufferSize\<close> are declared in cli\_uart.hpp,
  which is not part of the sources at hand: they are parameters of the model. The flag
  \<open>examples_posix\<close> says whether the macro \<open>OPENTHREAD_EXAMPLES_POSIX\<close> is defined.
\<close>

record config =
  kRxBufferSize :: nat
  kTxBufferSize :: nat
  examples_posix :: bool

text \<open>
  The object. The last two fields are not members of the class: they record, in order,
  the calls the object makes to its two external collaborators, the byte span of every
  \<open>otPlatUartSend\<close> and the content and length of every \<open>Interpreter::ProcessLine\<close>.
\<close>

record uart =
  mRxBuffer :: "byte list"
  mRxLength :: nat
  mTxBuffer :: "byte list"
  mTxHead :: nat
  mTxLength :: nat
  mSendLength :: nat
  otPlatUartSend_calls :: "byte list list"
  ProcessLine_calls :: "(byte list \<times> nat) list"

text \<open>
  The interpreter is an external collaborator. What matters of it here is what it writes
  back through \<open>Output\<close> while \<open>ProcessLine\<close> runs: a list of byte spans, which may
  depend on every line it has been handed so far (the last one is the current line).
\<close>

type_synonym interpreter = "(byte list \<times> nat) list \<Rightarrow> byte list list"

datatype error = RxBufferOutOfBounds | ProcessExit

definition sCommandPrompt :: "byte list" where
  "sCommandPrompt = [0x3E, 0x20]"

definition sEraseString :: "byte list" where
  "sEraseString = [0x08, 0x20, 0x08]"

definition CRNL :: "byte list" where
  "CRNL = [0x0D, 0x0A]"

subsection \<open>Construction\<close>

text \<open>
  The constructor zeroes the four counters. The object lives in the static storage
  \<open>sCliUartRaw\<close>, so both arrays start zero-filled.
\<close>

definition Uart :: "config \<Rightarrow> uart" where
  "Uart cfg =
     \<lparr> mRxBuffer = replicate (kRxBufferSize cfg) 0,
       mRxLength = 0,
       mTxBuffer = replicate (kTxBufferSize cfg) 0,
       mTxHead = 0,
       mTxLength = 0,
       mSendLength = 0,
       otPlatUartSend_calls = [],
       ProcessLine_calls = [] \<rparr>"

subsection \<open>The transmit ring\<close>

text \<open>
  \<open>Send\<close>: leaves at once when a send is in flight; otherwise picks the run from the
  head to the end of the array or to the end of the queued bytes, whichever is shorter,
  and hands it to the driver when it is not empty.
\<close>

definition Send :: "config \<Rightarrow> uart \<Rightarrow> uart" where
  "Send cfg s =
     (if mSendLength s \<noteq> 0 then s
      else
        let s1 = (if int (mTxLength s) > int (kTxBufferSize cfg) - int (mTxHead s)
                  then s\<lparr>mSendLength := u16 (int (kTxBufferSize cfg) - int (mTxHead s))\<rparr>
                  else s\<lparr>mSendLength := mTxLength s\<rparr>)
        in if mSendLength s1 > 0
           then s1\<lparr>otPlatUartSend_calls := otPlatUartSend_calls s1 @
                      [take (mSendLength s1) (drop (mTxHead s1) (mTxBuffer s1))]\<rparr>
           else s1)"

text \<open>The copy loop of \<open>Output\<close>, over the bytes that were accepted.\<close>

fun Output_loop :: "config \<Rightarrow> byte list \<Rightarrow> uart \<Rightarrow> uart" where
  "Output_loop cfg [] s = s"
| "Output_loop cfg (c # cs) s =
     (let tail = u16 ((int (mTxHead s) + int (mTxLength s)) mod int (kTxBufferSize cfg))
      in Output_loop cfg cs
           (s\<lparr>mTxBuffer := (mTxBuffer s)[tail := c],
              mTxLength := u16 (int (mTxLength s) + 1)\<rparr>))"

text \<open>
  \<open>Output\<close> returns the number of bytes it accepted together with the new state.
  \<open>aBufLength\<close> is the length of the span \<open>aBuf\<close>.
\<close>

definition Output :: "config \<Rightarrow> byte list \<Rightarrow> uart \<Rightarrow> int \<times> uart" where
  "Output cfg aBuf s =
     (let remaining = u16 (int (kTxBufferSize cfg) - int (mTxLength s));
          aBufLength = (if length aBuf > remaining then remaining else length aBuf);
          s1 = Output_loop cfg (take aBufLength aBuf) s
      in (int aBufLength, Send cfg s1))"

definition SendDoneTask :: "config \<Rightarrow> uart \<Rightarrow> uart" where
  "SendDoneTask cfg s =
     Send cfg
       (s\<lparr>mTxHead := u16 ((int (mTxHead s) + int (mSendLength s)) mod int (kTxBufferSize cfg)),
          mTxLength := u16 (int (mTxLength s) - int (mSendLength s)),
          mSendLength := 0\<rparr>)"

subsection \<open>The line assembler\<close>

text \<open>
  Reads and writes of \<open>mRxBuffer\<close> are checked against the size of the array: an access
  outside it is undefined behaviour in C++ and is the error \<open>RxBufferOutOfBounds\<close> here.
\<close>

definition rx_read :: "uart \<Rightarrow> int \<Rightarrow> error + byte" where
  "rx_read s i =
     (if 0 \<le> i \<and> i < int (length (mRxBuffer s)) then Inr (mRxBuffer s ! nat i)
      else Inl RxBufferOutOfBounds)"

definition rx_write :: "uart \<Rightarrow> int \<Rightarrow> byte \<Rightarrow> error + uart" where
  "rx_write s i c =
     (if 0 \<le> i \<and> i < int (length (mRxBuffer s))
      then Inr (s\<lparr>mRxBuffer := (mRxBuffer s)[nat i := c]\<rparr>)
      else Inl RxBufferOutOfBounds)"

text \<open>
  The call \<open>mInterpreter.ProcessLine(mRxBuffer, mRxLength, *this)\<close>: the call is
  recorded, then the interpreter's replies go through \<open>Output\<close> one after the other.
\<close>

definition ProcessLine :: "config \<Rightarrow> interpreter \<Rightarrow> uart \<Rightarrow> uart" where
  "ProcessLine cfg interp s =
     (let calls = ProcessLine_calls s @ [(take (mRxLength s) (mRxBuffer s), mRxLength s)]
      in fold (\<lambda>w t. snd (Output cfg w t)) (interp calls) (s\<lparr>ProcessLine_calls := calls\<rparr>))"

text \<open>One of the two stripping steps of \<open>ProcessCommand\<close>, for the terminator \<open>c\<close>.\<close>

definition strip_step :: "byte \<Rightarrow> uart \<Rightarrow> error + uart" where
  "strip_step c s =
     (case rx_read s (int (mRxLength s) - 1) of
        Inl e \<Rightarrow> Inl e
      | Inr b \<Rightarrow>
          if b = c
          then (let s1 = s\<lparr>mRxLength := u16 (int (mRxLength s) - 1)\<rparr>
                in rx_write s1 (int (mRxLength s1)) 0)
          else Inr s)"

definition ProcessCommand :: "config \<Rightarrow> interpreter \<Rightarrow> uart \<Rightarrow> error + uart" where
  "ProcessCommand cfg interp s =
     (case strip_step 0x0A s of
        Inl e \<Rightarrow> Inl e
      | Inr s1 \<Rightarrow>
          (case strip_step 0x0D s1 of
             Inl e \<Rightarrow> Inl e
           | Inr s2 \<Rightarrow> Inr ((ProcessLine cfg interp s2)\<lparr>mRxLength := 0\<rparr>)))"

text \<open>The body of the loop of \<open>ReceiveTask\<close>, for one byte.\<close>

definition ReceiveByte :: "config \<Rightarrow> interpreter \<Rightarrow> byte \<Rightarrow> uart \<Rightarrow> error + uart" where
  "ReceiveByte cfg interp b s =
     (if b = 0x0D \<or> b = 0x0A then
        (let s1 = snd (Output cfg CRNL s)
         in case (if mRxLength s1 > 0
                  then (case rx_write s1 (int (mRxLength s1)) 0 of
                          Inl e \<Rightarrow> Inl e
                        | Inr s2 \<Rightarrow> ProcessCommand cfg interp s2)
                  else Inr s1) of
              Inl e \<Rightarrow> Inl e
            | Inr s3 \<Rightarrow> Inr (snd (Output cfg sCommandPrompt s3)))
      else if examples_posix cfg \<and> b = 0x03 then Inl ProcessExit
      else if b = 0x08 \<or> b = 0x7F then
        (if mRxLength s > 0
         then (let s1 = snd (Output cfg sEraseString s);
                   s2 = s1\<lparr>mRxLength := u16 (int (mRxLength s1) - 1)\<rparr>
               in rx_write s2 (int (mRxLength s2)) 0)
         else Inr s)
      else
        (let s1 = snd (Output cfg [b] s)
         in case rx_write s1 (int (mRxLength s1)) b of
              Inl e \<Rightarrow> Inl e
            | Inr s2 \<Rightarrow> Inr (s2\<lparr>mRxLength := u16 (int (mRxLength s2) + 1)\<rparr>)))"

fun ReceiveTask :: "config \<Rightarrow> interpreter \<Rightarrow> byte list \<Rightarrow> uart \<Rightarrow> error + uart" where
  "ReceiveTask cfg interp [] s = Inr s"
| "ReceiveTask cfg interp (b # bs) s =
     (case ReceiveByte cfg interp b s of
        Inl e \<Rightarrow> Inl e
      | Inr s' \<Rightarrow> ReceiveTask cfg interp bs s')"

section \<open>Auxiliary notions for the specification\<close>

subsection \<open>Well-formed configurations and rings\<close>

text \<open>
  The capacity of the transmit ring is positive (the code divides by it) and fits the
  \<open>uint16_t\<close> counters that index it.
\<close>

definition cfg_ok :: "config \<Rightarrow> bool" where
  "cfg_ok cfg = (0 < kTxBufferSize cfg \<and> kTxBufferSize cfg < 65536)"

text \<open>
  A well-formed ring: the array has \<open>kTxBufferSize\<close> cells, the head is an offset into
  it, the in-flight bytes are among the queued ones, the queued ones fit the array, and
  the in-flight run does not wrap.
\<close>

definition tx_wf :: "config \<Rightarrow> uart \<Rightarrow> bool" where
  "tx_wf cfg s =
     (length (mTxBuffer s) = kTxBufferSize cfg \<and>
      mTxHead s < kTxBufferSize cfg \<and>
      mSendLength s \<le> mTxLength s \<and>
      mTxLength s \<le> kTxBufferSize cfg \<and>
      mTxHead s + mSendLength s \<le> kTxBufferSize cfg)"

text \<open>The ring is idle only when it is empty.\<close>

definition tx_quiet :: "uart \<Rightarrow> bool" where
  "tx_quiet s = (mSendLength s = 0 \<longrightarrow> mTxLength s = 0)"

definition tx_ok :: "config \<Rightarrow> uart \<Rightarrow> bool" where
  "tx_ok cfg s = (tx_wf cfg s \<and> tx_quiet s)"

text \<open>The invariant of the transmit ring as the data model words it.\<close>

definition ring_invariant :: "config \<Rightarrow> uart \<Rightarrow> bool" where
  "ring_invariant cfg s = (mSendLength s \<le> mTxLength s \<and> mTxLength s \<le> kTxBufferSize cfg)"

subsection \<open>The bytes in the ring\<close>

text \<open>
  \<open>queued\<close> reads the queued bytes, oldest first; \<open>unsent\<close> are those not yet handed
  to the driver; \<open>stream\<close> is every byte handed to the driver so far followed by the
  unsent ones.
\<close>

definition queued :: "config \<Rightarrow> uart \<Rightarrow> byte list" where
  "queued cfg s =
     map (\<lambda>i. mTxBuffer s ! ((mTxHead s + i) mod kTxBufferSize cfg)) [0..<mTxLength s]"

definition unsent :: "config \<Rightarrow> uart \<Rightarrow> byte list" where
  "unsent cfg s = drop (mSendLength s) (queued cfg s)"

definition stream :: "config \<Rightarrow> uart \<Rightarrow> byte list" where
  "stream cfg s = concat (otPlatUartSend_calls s) @ unsent cfg s"

text \<open>
  Writing bytes at successive positions of an array of \<open>cap\<close> cells, wrapping around;
  \<open>enqueue\<close> and \<open>advance\<close> are what the copy loop of \<open>Output\<close> and the first three
  assignments of \<open>SendDoneTask\<close> amount to on a well-formed ring.
\<close>

fun ring_put :: "nat \<Rightarrow> nat \<Rightarrow> byte list \<Rightarrow> byte list \<Rightarrow> byte list" where
  "ring_put cap pos [] buf = buf"
| "ring_put cap pos (c # cs) buf = ring_put cap (Suc pos) cs (buf[pos mod cap := c])"

definition enqueue :: "config \<Rightarrow> byte list \<Rightarrow> uart \<Rightarrow> uart" where
  "enqueue cfg cs s =
     s\<lparr>mTxBuffer := ring_put (kTxBufferSize cfg) (mTxHead s + mTxLength s) cs (mTxBuffer s),
       mTxLength := mTxLength s + length cs\<rparr>"

definition advance :: "config \<Rightarrow> uart \<Rightarrow> uart" where
  "advance cfg s =
     s\<lparr>mTxHead := (mTxHead s + mSendLength s) mod kTxBufferSize cfg,
       mTxLength := mTxLength s - mSendLength s,
       mSendLength := 0\<rparr>"

subsection \<open>Reachable states\<close>

text \<open>
  The states the object can be in: the constructed one, and those that follow a call of
  \<open>Output\<close>, \<open>Send\<close>, \<open>SendDoneTask\<close> or a \<open>ReceiveTask\<close> that returns, in any order
  and with any arguments.
\<close>

inductive reachable :: "config \<Rightarrow> interpreter \<Rightarrow> uart \<Rightarrow> bool" for cfg interp where
  constructed: "reachable cfg interp (Uart cfg)"
| after_Output: "reachable cfg interp s \<Longrightarrow> reachable cfg interp (snd (Output cfg aBuf s))"
| after_Send: "reachable cfg interp s \<Longrightarrow> reachable cfg interp (Send cfg s)"
| after_SendDoneTask: "reachable cfg interp s \<Longrightarrow> reachable cfg interp (SendDoneTask cfg s)"
| after_ReceiveTask:
    "reachable cfg interp s \<Longrightarrow> ReceiveTask cfg interp aBuf s = Inr s' \<Longrightarrow> reachable cfg interp s'"

text \<open>Calls that do not complete a send: a write or a run of the send-pump.\<close>

datatype call = WriteCall "byte list" | PumpCall

fun perform :: "config \<Rightarrow> call \<Rightarrow> uart \<Rightarrow> uart" where
  "perform cfg (WriteCall aBuf) s = snd (Output cfg aBuf s)"
| "perform cfg PumpCall s = Send cfg s"

subsection \<open>A driver that completes every send\<close>

text \<open>
  The driver of the round-trip property: as long as a send is outstanding it signals its
  completion. \<open>drain\<close> is \<open>None\<close> when this never ends.
\<close>

partial_function (option) drain :: "config \<Rightarrow> uart \<Rightarrow> uart option" where
  "drain cfg s = (if mSendLength s = 0 then Some s else drain cfg (SendDoneTask cfg s))"

declare drain.simps [code]

text \<open>
  A schedule interleaves the writes with the driver's activity: a write, one completion
  signal (whether or not a send is outstanding), or the driver completing every send
  until none is outstanding. \<open>written\<close> gives the bytes a step asks to write.
\<close>

datatype step = Write "byte list" | Complete | Drain

fun written :: "step \<Rightarrow> byte list" where
  "written (Write w) = w"
| "written Complete = []"
| "written Drain = []"

fun run :: "config \<Rightarrow> step list \<Rightarrow> uart \<Rightarrow> uart option" where
  "run cfg [] s = Some s"
| "run cfg (Write w # steps) s = run cfg steps (snd (Output cfg w s))"
| "run cfg (Complete # steps) s = run cfg steps (SendDoneTask cfg s)"
| "run cfg (Drain # steps) s =
     (case drain cfg s of None \<Rightarrow> None | Some s' \<Rightarrow> run cfg steps s')"

subsection \<open>The line assembler\<close>

text \<open>
  A byte that \<open>ReceiveTask\<close> treats in its default case; the accumulated line; and what
  the completion handoff is said to strip: at most one trailing line feed, then at
  most one trailing carriage return.
\<close>

definition plain :: "config \<Rightarrow> byte \<Rightarrow> bool" where
  "plain cfg b =
     (b \<noteq> 0x0D \<and> b \<noteq> 0x0A \<and> b \<noteq> 0x08 \<and> b \<noteq> 0x7F \<and> \<not> (examples_posix cfg \<and> b = 0x03))"

definition line :: "uart \<Rightarrow> byte list" where
  "line s = take (mRxLength s) (mRxBuffer s)"

definition strip_eol :: "byte list \<Rightarrow> byte list" where
  "strip_eol xs =
     (let ys = (if xs \<noteq> [] \<and> last xs = 0x0A then butlast xs else xs)
      in if ys \<noteq> [] \<and> last ys = 0x0D then butlast ys else ys)"

subsection \<open>Concrete configurations and states\<close>

definition cfg4 :: config where
  "cfg4 = \<lparr>kRxBufferSize = 4, kTxBufferSize = 4, examples_posix = False\<rparr>"

definition cfg8 :: config where
  "cfg8 = \<lparr>kRxBufferSize = 8, kTxBufferSize = 8, examples_posix = False\<rparr>"

definition cfg128 :: config where
  "cfg128 = \<lparr>kRxBufferSize = 128, kTxBufferSize = 512, examples_posix = False\<rparr>"

text \<open>An interpreter that writes nothing back.\<close>

definition silent :: interpreter where
  "silent calls = []"

text \<open>An idle ring of four cells holding three bytes from offset 3 on, so that they wrap.\<close>

definition ring4 :: uart where
  "ring4 = (Uart cfg4)\<lparr>mTxBuffer := [1, 2, 3, 4], mTxHead := 3, mTxLength := 3\<rparr>"

text \<open>An empty idle ring of four cells whose head is at offset 3.\<close>

definition empty3 :: uart where
  "empty3 = (Uart cfg4)\<lparr>mTxHead := 3\<rparr>"

text \<open>
  A well-formed receive buffer: the array has \<open>kRxBufferSize\<close> cells, the length does
  not exceed it, and the accumulated line holds no line terminator.
\<close>

definition rx_ok :: "config \<Rightarrow> uart \<Rightarrow> bool" where
  "rx_ok cfg s =
     (length (mRxBuffer s) = kRxBufferSize cfg \<and>
      mRxLength s \<le> kRxBufferSize cfg \<and>
      0x0D \<notin> set (line s) \<and> 0x0A \<notin> set (line s))"

text \<open>A receive buffer of eight bytes with a transmit ring of four.\<close>

definition cfg84 :: config where
  "cfg84 = \<lparr>kRxBufferSize = 8, kTxBufferSize = 4, examples_posix = False\<rparr>"

text \<open>
  The object of configuration \<open>cfg84\<close> after four bytes \<open>a\<close> were received and no
  send has completed: the echo fills the ring, the first byte is in flight.
\<close>

definition full_ring :: uart where
  "full_ring =
     \<lparr> mRxBuffer = [0x61, 0x61, 0x61, 0x61, 0, 0, 0, 0],
       mRxLength = 4,
       mTxBuffer = [0x61, 0x61, 0x61, 0x61],
       mTxHead = 0,
       mTxLength = 4,
       mSendLength = 1,
       otPlatUartSend_calls = [[0x61]],
       ProcessLine_calls = [] \<rparr>"

text \<open>
  The object of configuration \<open>cfg8\<close> after the six bytes of \<open>status\<close> were received,
  and the same after the driver has completed the two sends of the echo.
\<close>

definition typed_status :: uart where
  "typed_status =
     \<lparr> mRxBuffer = [0x73, 0x74, 0x61, 0x74, 0x75, 0x73, 0, 0],
       mRxLength = 6,
       mTxBuffer = [0x73, 0x74, 0x61, 0x74, 0x75, 0x73, 0, 0],
       mTxHead = 0,
       mTxLength = 6,
       mSendLength = 1,
       otPlatUartSend_calls = [[0x73]],
       ProcessLine_calls = [] \<rparr>"

definition status_drained :: uart where
  "status_drained =
     \<lparr> mRxBuffer = [0x73, 0x74, 0x61, 0x74, 0x75, 0x73, 0, 0],
       mRxLength = 6,
       mTxBuffer = [0x73, 0x74, 0x61, 0x74, 0x75, 0x73, 0, 0],
       mTxHead = 6,
       mTxLength = 0,
       mSendLength = 0,
       otPlatUartSend_calls = [[0x73], [0x74, 0x61, 0x74, 0x75, 0x73]],
       ProcessLine_calls = [] \<rparr>"

section \<open>Properties\<close>

subsection \<open>Conversions to \<open>uint16_t\<close> that do not wrap\<close>

lemma u16_nat: "0 \<le> x \<Longrightarrow> x < 65536 \<Longrightarrow> u16 x = nat x"
  by (simp add: u16_def)

lemma u16_sub: "b \<le> a \<Longrightarrow> a < 65536 \<Longrightarrow> u16 (int a - int b) = a - b"
  by (simp add: u16_def nat_diff_distrib')

lemma u16_inc: "a < 65535 \<Longrightarrow> u16 (int a + 1) = Suc a"
  by (simp add: u16_def nat_add_distrib)

lemma u16_add_mod:
  "0 < c \<Longrightarrow> c \<le> 65536 \<Longrightarrow> u16 ((int a + int b) mod int c) = (a + b) mod c"
proof -
  assume c: "0 < c" "c \<le> 65536"
  have "(int a + int b) mod int c = int ((a + b) mod c)"
    by (simp add: zmod_int)
  moreover have "(a + b) mod c < 65536" using c
    by (meson mod_less_divisor less_le_trans)
  ultimately show ?thesis by (simp add: u16_def del: of_nat_mod of_nat_add)
qed

subsection \<open>What the operations do on a well-formed ring\<close>

lemma Send_busy: "mSendLength s \<noteq> 0 \<Longrightarrow> Send cfg s = s"
  by (simp add: Send_def)

lemma Send_idle:
  assumes "cfg_ok cfg" "mTxHead s < kTxBufferSize cfg" "mSendLength s = 0"
  shows "Send cfg s =
     (let n = min (mTxLength s) (kTxBufferSize cfg - mTxHead s)
      in if 0 < n
         then s\<lparr>mSendLength := n,
                otPlatUartSend_calls := otPlatUartSend_calls s @ [take n (drop (mTxHead s) (mTxBuffer s))]\<rparr>
         else s)"
  using assms
  by (auto simp: Send_def cfg_ok_def Let_def u16_sub min_def)

lemma length_ring_put [simp]: "length (ring_put cap pos cs buf) = length buf"
  by (induction cs arbitrary: pos buf) simp_all

lemma Output_loop_eq:
  "cfg_ok cfg \<Longrightarrow> mTxLength s + length cs \<le> kTxBufferSize cfg \<Longrightarrow>
   Output_loop cfg cs s =
     s\<lparr>mTxBuffer := ring_put (kTxBufferSize cfg) (mTxHead s + mTxLength s) cs (mTxBuffer s),
       mTxLength := mTxLength s + length cs\<rparr>"
proof (induction cs arbitrary: s)
  case Nil
  then show ?case by simp
next
  case (Cons c cs)
  from Cons.prems have c: "0 < kTxBufferSize cfg" "kTxBufferSize cfg \<le> 65536" "mTxLength s < 65535"
    by (auto simp: cfg_ok_def)
  let ?s1 = "s\<lparr>mTxBuffer := (mTxBuffer s)[(mTxHead s + mTxLength s) mod kTxBufferSize cfg := c],
                mTxLength := Suc (mTxLength s)\<rparr>"
  have step: "Output_loop cfg (c # cs) s = Output_loop cfg cs ?s1"
    using c by (simp add: u16_add_mod u16_inc)
  have "mTxLength ?s1 + length cs \<le> kTxBufferSize cfg"
    using Cons.prems by simp
  from Cons.IH [OF Cons.prems(1) this] step show ?case by simp
qed

lemma mod_ring_distinct:
  fixes cap :: nat
  assumes "i < j" "j < i + cap"
  shows "(p + i) mod cap \<noteq> (p + j) mod cap"
proof
  assume "(p + i) mod cap = (p + j) mod cap"
  then have "cap dvd (p + j) - (p + i)"
    by (metis mod_eq_dvd_iff_nat assms(1) add_le_cancel_left less_imp_le)
  then have "cap dvd j - i" by simp
  moreover have "0 < j - i" "j - i < cap" using assms by auto
  ultimately show False by (meson dvd_imp_le not_less)
qed

lemma ring_put_other:
  "\<forall>i<length cs. j \<noteq> (pos + i) mod cap \<Longrightarrow> ring_put cap pos cs buf ! j = buf ! j"
proof (induction cs arbitrary: pos buf)
  case Nil
  then show ?case by simp
next
  case (Cons c cs)
  have "j \<noteq> (pos + 0) mod cap" using Cons.prems by blast
  then have 0: "j \<noteq> pos mod cap" by simp
  have "\<forall>i<length cs. j \<noteq> (Suc pos + i) mod cap"
    using Cons.prems by force
  from Cons.IH [OF this] 0 show ?case by simp
qed

lemma ring_put_nth:
  "length buf = cap \<Longrightarrow> length cs \<le> cap \<Longrightarrow> i < length cs \<Longrightarrow>
   ring_put cap pos cs buf ! ((pos + i) mod cap) = cs ! i"
proof (induction cs arbitrary: pos buf i)
  case Nil
  then show ?case by simp
next
  case (Cons c cs)
  show ?case
  proof (cases i)
    case 0
    have "\<forall>k<length cs. pos mod cap \<noteq> (Suc pos + k) mod cap"
    proof (intro allI impI)
      fix k assume "k < length cs"
      then have "0 < Suc k" "Suc k < 0 + cap" using Cons.prems by auto
      from mod_ring_distinct [OF this, of pos] show "pos mod cap \<noteq> (Suc pos + k) mod cap" by simp
    qed
    from ring_put_other [OF this] have
      "ring_put cap (Suc pos) cs (buf[pos mod cap := c]) ! (pos mod cap) = buf[pos mod cap := c] ! (pos mod cap)" .
    moreover have "pos mod cap < length buf" using Cons.prems by auto
    ultimately show ?thesis using 0 by simp
  next
    case (Suc k)
    then have "k < length cs" "length cs \<le> cap" using Cons.prems by auto
    from Cons.IH [of "buf[pos mod cap := c]" k "Suc pos"] this Cons.prems(1) Suc
    show ?thesis by simp
  qed
qed

subsection \<open>The queued bytes\<close>

lemma length_queued [simp]: "length (queued cfg s) = mTxLength s"
  by (simp add: queued_def)

lemma Send_frame [simp]:
  "mRxBuffer (Send cfg s) = mRxBuffer s"
  "mRxLength (Send cfg s) = mRxLength s"
  "mTxBuffer (Send cfg s) = mTxBuffer s"
  "mTxHead (Send cfg s) = mTxHead s"
  "mTxLength (Send cfg s) = mTxLength s"
  "ProcessLine_calls (Send cfg s) = ProcessLine_calls s"
  by (simp_all add: Send_def Let_def)

lemma queued_Send [simp]: "queued cfg (Send cfg s) = queued cfg s"
  by (simp add: queued_def)

lemma Output_loop_frame [simp]:
  "mRxBuffer (Output_loop cfg cs s) = mRxBuffer s"
  "mRxLength (Output_loop cfg cs s) = mRxLength s"
  "mTxHead (Output_loop cfg cs s) = mTxHead s"
  "mSendLength (Output_loop cfg cs s) = mSendLength s"
  "otPlatUartSend_calls (Output_loop cfg cs s) = otPlatUartSend_calls s"
  "ProcessLine_calls (Output_loop cfg cs s) = ProcessLine_calls s"
  by (induction cs arbitrary: s; simp add: Let_def)+

lemma Output_frame [simp]:
  "mRxBuffer (snd (Output cfg aBuf s)) = mRxBuffer s"
  "mRxLength (snd (Output cfg aBuf s)) = mRxLength s"
  "mTxHead (snd (Output cfg aBuf s)) = mTxHead s"
  "ProcessLine_calls (snd (Output cfg aBuf s)) = ProcessLine_calls s"
  by (simp_all add: Output_def Let_def)

lemma Output_eq:
  assumes "cfg_ok cfg" "mTxLength s \<le> kTxBufferSize cfg"
  shows "Output cfg aBuf s =
     (let n = min (length aBuf) (kTxBufferSize cfg - mTxLength s)
      in (int n,
          Send cfg (s\<lparr>mTxBuffer := ring_put (kTxBufferSize cfg) (mTxHead s + mTxLength s)
                                      (take n aBuf) (mTxBuffer s),
                      mTxLength := mTxLength s + n\<rparr>)))"
proof -
  have r: "u16 (int (kTxBufferSize cfg) - int (mTxLength s)) = kTxBufferSize cfg - mTxLength s"
    using assms by (simp add: u16_sub cfg_ok_def)
  let ?n = "min (length aBuf) (kTxBufferSize cfg - mTxLength s)"
  have n: "(if length aBuf > kTxBufferSize cfg - mTxLength s
            then kTxBufferSize cfg - mTxLength s else length aBuf) = ?n"
    by (simp add: min_def)
  have "mTxLength s + length (take ?n aBuf) \<le> kTxBufferSize cfg"
    using assms(2) by simp
  from Output_loop_eq [OF assms(1) this]
  show ?thesis
    unfolding Output_def r Let_def n by (simp add: min_def)
qed

lemma queued_append:
  assumes "0 < kTxBufferSize cfg" "length (mTxBuffer s) = kTxBufferSize cfg"
    "mTxLength s + length cs \<le> kTxBufferSize cfg"
  shows "queued cfg (s\<lparr>mTxBuffer := ring_put (kTxBufferSize cfg) (mTxHead s + mTxLength s)
                                      cs (mTxBuffer s),
                       mTxLength := mTxLength s + length cs\<rparr>) = queued cfg s @ cs"
proof (rule nth_equalityI)
  show "length (queued cfg (s\<lparr>mTxBuffer := ring_put (kTxBufferSize cfg) (mTxHead s + mTxLength s)
                                      cs (mTxBuffer s),
                       mTxLength := mTxLength s + length cs\<rparr>)) = length (queued cfg s @ cs)"
    by simp
next
  fix i
  assume "i < length (queued cfg (s\<lparr>mTxBuffer := ring_put (kTxBufferSize cfg) (mTxHead s + mTxLength s)
                                      cs (mTxBuffer s),
                       mTxLength := mTxLength s + length cs\<rparr>))"
  then have i: "i < mTxLength s + length cs" by simp
  let ?cap = "kTxBufferSize cfg"
  let ?buf' = "ring_put ?cap (mTxHead s + mTxLength s) cs (mTxBuffer s)"
  have lhs: "queued cfg (s\<lparr>mTxBuffer := ?buf', mTxLength := mTxLength s + length cs\<rparr>) ! i
             = ?buf' ! ((mTxHead s + i) mod ?cap)"
    using i by (simp add: queued_def)
  show "queued cfg (s\<lparr>mTxBuffer := ?buf', mTxLength := mTxLength s + length cs\<rparr>) ! i
        = (queued cfg s @ cs) ! i"
  proof (cases "i < mTxLength s")
    case True
    have "\<forall>k<length cs. (mTxHead s + i) mod ?cap \<noteq> (mTxHead s + mTxLength s + k) mod ?cap"
    proof (intro allI impI)
      fix k assume "k < length cs"
      then have "i < mTxLength s + k" "mTxLength s + k < i + ?cap"
        using True assms(3) by auto
      from mod_ring_distinct [OF this, of "mTxHead s"]
      show "(mTxHead s + i) mod ?cap \<noteq> (mTxHead s + mTxLength s + k) mod ?cap"
        by (simp add: add.assoc)
    qed
    from ring_put_other [OF this] have "?buf' ! ((mTxHead s + i) mod ?cap)
       = mTxBuffer s ! ((mTxHead s + i) mod ?cap)" .
    with lhs True show ?thesis by (simp add: nth_append queued_def)
  next
    case False
    then obtain k where k: "i = mTxLength s + k" "k < length cs"
      using i by (metis add_diff_inverse_nat nat_add_left_cancel_less)
    have "length cs \<le> ?cap" using assms(3) by simp
    from ring_put_nth [OF assms(2) this k(2), of "mTxHead s + mTxLength s"]
    have "?buf' ! ((mTxHead s + mTxLength s + k) mod ?cap) = cs ! k" .
    with lhs k show ?thesis by (simp add: nth_append add.assoc)
  qed
qed

lemma span_queued:
  assumes "length (mTxBuffer s) = kTxBufferSize cfg" "mTxHead s + n \<le> kTxBufferSize cfg"
    "n \<le> mTxLength s"
  shows "take n (drop (mTxHead s) (mTxBuffer s)) = take n (queued cfg s)"
proof (rule nth_equalityI)
  show "length (take n (drop (mTxHead s) (mTxBuffer s))) = length (take n (queued cfg s))"
    using assms by simp
next
  fix i assume "i < length (take n (drop (mTxHead s) (mTxBuffer s)))"
  then have i: "i < n" by simp
  then have "mTxHead s + i < kTxBufferSize cfg" using assms(2) by simp
  then show "take n (drop (mTxHead s) (mTxBuffer s)) ! i = take n (queued cfg s) ! i"
    using i assms by (simp add: queued_def)
qed

lemma queued_advance:
  assumes "mSendLength s \<le> mTxLength s"
  shows "queued cfg (s\<lparr>mTxHead := (mTxHead s + mSendLength s) mod kTxBufferSize cfg,
                       mTxLength := mTxLength s - mSendLength s,
                       mSendLength := 0\<rparr>) = drop (mSendLength s) (queued cfg s)"
proof (rule nth_equalityI)
  show "length (queued cfg (s\<lparr>mTxHead := (mTxHead s + mSendLength s) mod kTxBufferSize cfg,
                       mTxLength := mTxLength s - mSendLength s,
                       mSendLength := 0\<rparr>)) = length (drop (mSendLength s) (queued cfg s))"
    by simp
next
  fix i
  assume "i < length (queued cfg (s\<lparr>mTxHead := (mTxHead s + mSendLength s) mod kTxBufferSize cfg,
                       mTxLength := mTxLength s - mSendLength s,
                       mSendLength := 0\<rparr>))"
  then have i: "i < mTxLength s - mSendLength s" by simp
  have "((mTxHead s + mSendLength s) mod kTxBufferSize cfg + i) mod kTxBufferSize cfg
        = (mTxHead s + (mSendLength s + i)) mod kTxBufferSize cfg"
    by (simp add: mod_add_left_eq add.assoc)
  moreover have "mSendLength s + i < mTxLength s" using i by simp
  ultimately show "queued cfg (s\<lparr>mTxHead := (mTxHead s + mSendLength s) mod kTxBufferSize cfg,
                       mTxLength := mTxLength s - mSendLength s,
                       mSendLength := 0\<rparr>) ! i = drop (mSendLength s) (queued cfg s) ! i"
    using i by (simp add: queued_def)
qed

lemma Output_enqueue:
  assumes "cfg_ok cfg" "mTxLength s \<le> kTxBufferSize cfg"
  shows "Output cfg aBuf s =
     (int (length (take (kTxBufferSize cfg - mTxLength s) aBuf)),
      Send cfg (enqueue cfg (take (kTxBufferSize cfg - mTxLength s) aBuf) s))"
proof -
  have "take (min (length aBuf) (kTxBufferSize cfg - mTxLength s)) aBuf
        = take (kTxBufferSize cfg - mTxLength s) aBuf"
    by (simp add: min_def)
  then show ?thesis
    using Output_eq [OF assms, of aBuf] by (simp add: Let_def enqueue_def min.commute)
qed

lemma SendDoneTask_advance:
  assumes "cfg_ok cfg" "tx_wf cfg s"
  shows "SendDoneTask cfg s = Send cfg (advance cfg s)"
proof -
  have "u16 ((int (mTxHead s) + int (mSendLength s)) mod int (kTxBufferSize cfg))
        = (mTxHead s + mSendLength s) mod kTxBufferSize cfg"
    using assms(1) by (simp add: u16_add_mod cfg_ok_def)
  moreover have "u16 (int (mTxLength s) - int (mSendLength s)) = mTxLength s - mSendLength s"
    using assms by (simp add: u16_sub cfg_ok_def tx_wf_def)
  ultimately show ?thesis by (simp add: SendDoneTask_def advance_def)
qed

subsection \<open>Well-formedness and the byte stream are preserved\<close>

lemma tx_wf_enqueue:
  "tx_wf cfg s \<Longrightarrow> mTxLength s + length cs \<le> kTxBufferSize cfg \<Longrightarrow> tx_wf cfg (enqueue cfg cs s)"
  by (simp add: tx_wf_def enqueue_def)

lemma tx_wf_advance:
  "0 < kTxBufferSize cfg \<Longrightarrow> tx_wf cfg s \<Longrightarrow> tx_wf cfg (advance cfg s)"
  by (auto simp: tx_wf_def advance_def)

lemma tx_wf_Send:
  assumes "cfg_ok cfg" "tx_wf cfg s"
  shows "tx_wf cfg (Send cfg s)"
proof (cases "mSendLength s = 0")
  case True
  with assms have "mTxHead s < kTxBufferSize cfg" by (simp add: tx_wf_def)
  from Send_idle [OF assms(1) this True] assms(2) True
  show ?thesis by (auto simp: Let_def tx_wf_def)
next
  case False
  with assms show ?thesis by (simp add: Send_busy)
qed

lemma tx_quiet_Send:
  assumes "cfg_ok cfg" "tx_wf cfg s"
  shows "tx_quiet (Send cfg s)"
proof (cases "mSendLength s = 0")
  case True
  with assms have "mTxHead s < kTxBufferSize cfg" by (simp add: tx_wf_def)
  from Send_idle [OF assms(1) this True] this
  show ?thesis by (auto simp: Let_def tx_quiet_def)
next
  case False
  then show ?thesis by (simp add: Send_busy tx_quiet_def)
qed

lemma stream_Send:
  assumes "cfg_ok cfg" "tx_wf cfg s"
  shows "stream cfg (Send cfg s) = stream cfg s"
proof (cases "mSendLength s = 0")
  case True
  let ?n = "min (mTxLength s) (kTxBufferSize cfg - mTxHead s)"
  from assms have h: "mTxHead s < kTxBufferSize cfg" and l: "length (mTxBuffer s) = kTxBufferSize cfg"
    by (simp_all add: tx_wf_def)
  have "mTxHead s + ?n \<le> kTxBufferSize cfg" "?n \<le> mTxLength s" using h by simp_all
  from span_queued [OF l this]
  have span: "take ?n (drop (mTxHead s) (mTxBuffer s)) = take ?n (queued cfg s)" .
  show ?thesis
  proof (cases "0 < ?n")
    case n: True
    then have "Send cfg s = s\<lparr>mSendLength := ?n,
        otPlatUartSend_calls := otPlatUartSend_calls s @ [take ?n (queued cfg s)]\<rparr>"
      using Send_idle [OF assms(1) h True] span by (simp add: Let_def)
    then have "stream cfg (Send cfg s)
        = concat (otPlatUartSend_calls s) @ take ?n (queued cfg s) @ drop ?n (queued cfg s)"
      by (simp add: stream_def unsent_def queued_def)
    then show ?thesis using True by (simp add: stream_def unsent_def)
  next
    case False
    have "Send cfg s = s"
      unfolding Send_idle [OF assms(1) h True] Let_def by (simp only: False if_False)
    then show ?thesis by simp
  qed
next
  case False
  then show ?thesis by (simp add: Send_busy)
qed

lemma stream_enqueue:
  assumes "0 < kTxBufferSize cfg" "tx_wf cfg s" "mTxLength s + length cs \<le> kTxBufferSize cfg"
  shows "stream cfg (enqueue cfg cs s) = stream cfg s @ cs"
proof -
  from assms have l: "length (mTxBuffer s) = kTxBufferSize cfg" and sl: "mSendLength s \<le> mTxLength s"
    by (simp_all add: tx_wf_def)
  have "queued cfg (enqueue cfg cs s) = queued cfg s @ cs"
    unfolding enqueue_def by (rule queued_append [OF assms(1) l assms(3)])
  moreover have "mSendLength (enqueue cfg cs s) = mSendLength s"
    "otPlatUartSend_calls (enqueue cfg cs s) = otPlatUartSend_calls s"
    by (simp_all add: enqueue_def)
  ultimately show ?thesis using sl by (simp add: stream_def unsent_def)
qed

lemma stream_advance:
  assumes "tx_wf cfg s"
  shows "stream cfg (advance cfg s) = stream cfg s"
proof -
  from assms have sl: "mSendLength s \<le> mTxLength s" by (simp add: tx_wf_def)
  have "queued cfg (advance cfg s) = drop (mSendLength s) (queued cfg s)"
    unfolding advance_def by (rule queued_advance [OF sl])
  moreover have "mSendLength (advance cfg s) = 0"
    "otPlatUartSend_calls (advance cfg s) = otPlatUartSend_calls s"
    by (simp_all add: advance_def)
  ultimately show ?thesis by (simp add: stream_def unsent_def)
qed

lemma tx_wf_Output:
  assumes "cfg_ok cfg" "tx_wf cfg s"
  shows "tx_wf cfg (snd (Output cfg aBuf s))"
proof -
  from assms have len: "mTxLength s \<le> kTxBufferSize cfg" by (simp add: tx_wf_def)
  have "mTxLength s + length (take (kTxBufferSize cfg - mTxLength s) aBuf) \<le> kTxBufferSize cfg"
    using len by simp
  from tx_wf_enqueue [OF assms(2) this] show ?thesis
    by (simp add: Output_enqueue [OF assms(1) len] tx_wf_Send [OF assms(1)])
qed

lemma tx_quiet_Output:
  assumes "cfg_ok cfg" "tx_wf cfg s"
  shows "tx_quiet (snd (Output cfg aBuf s))"
proof -
  from assms have len: "mTxLength s \<le> kTxBufferSize cfg" by (simp add: tx_wf_def)
  have "mTxLength s + length (take (kTxBufferSize cfg - mTxLength s) aBuf) \<le> kTxBufferSize cfg"
    using len by simp
  from tx_wf_enqueue [OF assms(2) this] show ?thesis
    by (simp add: Output_enqueue [OF assms(1) len] tx_quiet_Send [OF assms(1)])
qed

lemma stream_Output:
  assumes "cfg_ok cfg" "tx_wf cfg s"
  shows "stream cfg (snd (Output cfg aBuf s))
         = stream cfg s @ take (kTxBufferSize cfg - mTxLength s) aBuf"
proof -
  from assms have len: "mTxLength s \<le> kTxBufferSize cfg" and c: "0 < kTxBufferSize cfg"
    by (simp_all add: tx_wf_def cfg_ok_def)
  have fit: "mTxLength s + length (take (kTxBufferSize cfg - mTxLength s) aBuf) \<le> kTxBufferSize cfg"
    using len by simp
  show ?thesis
    by (simp add: Output_enqueue [OF assms(1) len] stream_Send [OF assms(1) tx_wf_enqueue [OF assms(2) fit]]
                  stream_enqueue [OF c assms(2) fit])
qed

lemma tx_wf_SendDoneTask:
  assumes "cfg_ok cfg" "tx_wf cfg s"
  shows "tx_wf cfg (SendDoneTask cfg s)"
  using assms
  by (simp add: SendDoneTask_advance tx_wf_Send tx_wf_advance cfg_ok_def)

lemma tx_quiet_SendDoneTask:
  assumes "cfg_ok cfg" "tx_wf cfg s"
  shows "tx_quiet (SendDoneTask cfg s)"
  using assms
  by (simp add: SendDoneTask_advance tx_quiet_Send tx_wf_advance cfg_ok_def)

lemma stream_SendDoneTask:
  assumes "cfg_ok cfg" "tx_wf cfg s"
  shows "stream cfg (SendDoneTask cfg s) = stream cfg s"
  using assms
  by (simp add: SendDoneTask_advance stream_Send tx_wf_advance stream_advance cfg_ok_def)

subsection \<open>Every reachable state has a well-formed, quiet ring\<close>

lemma tx_ok_rx [simp]:
  "tx_ok cfg (s\<lparr>mRxLength := n\<rparr>) = tx_ok cfg s"
  "tx_ok cfg (s\<lparr>mRxBuffer := b\<rparr>) = tx_ok cfg s"
  "tx_ok cfg (s\<lparr>ProcessLine_calls := c\<rparr>) = tx_ok cfg s"
  by (simp_all add: tx_ok_def tx_wf_def tx_quiet_def)

lemma tx_ok_Uart: "cfg_ok cfg \<Longrightarrow> tx_ok cfg (Uart cfg)"
  by (simp add: tx_ok_def tx_wf_def tx_quiet_def Uart_def cfg_ok_def)

lemma tx_ok_Send: "cfg_ok cfg \<Longrightarrow> tx_wf cfg s \<Longrightarrow> tx_ok cfg (Send cfg s)"
  by (simp add: tx_ok_def tx_wf_Send tx_quiet_Send)

lemma tx_ok_Output: "cfg_ok cfg \<Longrightarrow> tx_wf cfg s \<Longrightarrow> tx_ok cfg (snd (Output cfg aBuf s))"
  by (simp add: tx_ok_def tx_wf_Output tx_quiet_Output)

lemma tx_ok_SendDoneTask: "cfg_ok cfg \<Longrightarrow> tx_wf cfg s \<Longrightarrow> tx_ok cfg (SendDoneTask cfg s)"
  by (simp add: tx_ok_def tx_wf_SendDoneTask tx_quiet_SendDoneTask)

lemma tx_ok_wf: "tx_ok cfg s \<Longrightarrow> tx_wf cfg s"
  by (simp add: tx_ok_def)

lemma tx_ok_fold_Output:
  "cfg_ok cfg \<Longrightarrow> tx_ok cfg s \<Longrightarrow> tx_ok cfg (fold (\<lambda>w t. snd (Output cfg w t)) ws s)"
  by (induction ws arbitrary: s) (simp_all add: tx_ok_Output tx_ok_wf)

lemma tx_ok_ProcessLine:
  "cfg_ok cfg \<Longrightarrow> tx_ok cfg s \<Longrightarrow> tx_ok cfg (ProcessLine cfg interp s)"
  by (simp add: ProcessLine_def Let_def tx_ok_fold_Output)

lemma tx_ok_rx_write: "rx_write s i c = Inr s' \<Longrightarrow> tx_ok cfg s' = tx_ok cfg s"
  by (auto simp: rx_write_def split: if_splits)

lemma tx_ok_strip_step: "strip_step c s = Inr s' \<Longrightarrow> tx_ok cfg s' = tx_ok cfg s"
  by (auto simp: strip_step_def Let_def split: sum.splits if_splits dest: tx_ok_rx_write [where cfg = cfg])

lemma tx_ok_ProcessCommand:
  "cfg_ok cfg \<Longrightarrow> tx_ok cfg s \<Longrightarrow> ProcessCommand cfg interp s = Inr s' \<Longrightarrow> tx_ok cfg s'"
  by (auto simp: ProcessCommand_def tx_ok_ProcessLine split: sum.splits
           dest!: tx_ok_strip_step [where cfg = cfg])

lemma tx_ok_ReceiveByte:
  assumes "cfg_ok cfg" "tx_ok cfg s" "ReceiveByte cfg interp b s = Inr s'"
  shows "tx_ok cfg s'"
proof -
  have out: "\<And>w t. tx_ok cfg t \<Longrightarrow> tx_ok cfg (snd (Output cfg w t))"
    using assms(1) by (simp add: tx_ok_Output tx_ok_wf)
  consider (eol) "b = 0x0D \<or> b = 0x0A"
    | (bs) "\<not> (b = 0x0D \<or> b = 0x0A)" "b = 0x08 \<or> b = 0x7F"
    | (other) "\<not> (b = 0x0D \<or> b = 0x0A)" "\<not> (b = 0x08 \<or> b = 0x7F)"
    by blast
  then show ?thesis
  proof cases
    case eol
    let ?s1 = "snd (Output cfg CRNL s)"
    have s1: "tx_ok cfg ?s1" using assms(2) by (rule out)
    from assms(3) eol obtain s3 where
      s3: "(if mRxLength ?s1 > 0
            then (case rx_write ?s1 (int (mRxLength ?s1)) 0 of
                    Inl e \<Rightarrow> Inl e | Inr s2 \<Rightarrow> ProcessCommand cfg interp s2)
            else Inr ?s1) = Inr s3"
      and s': "s' = snd (Output cfg sCommandPrompt s3)"
      by (auto simp: ReceiveByte_def Let_def split: sum.splits)
    have "tx_ok cfg s3"
    proof (cases "mRxLength ?s1 > 0")
      case True
      with s3 obtain s2 where w: "rx_write ?s1 (int (mRxLength ?s1)) 0 = Inr s2"
        and p: "ProcessCommand cfg interp s2 = Inr s3"
        by (auto split: sum.splits)
      from tx_ok_rx_write [OF w, of cfg] s1 have "tx_ok cfg s2" by simp
      from tx_ok_ProcessCommand [OF assms(1) this p] show ?thesis .
    next
      case False
      with s3 s1 show ?thesis by simp
    qed
    then show ?thesis unfolding s' by (rule out)
  next
    case bs
    show ?thesis
    proof (cases "mRxLength s > 0")
      case True
      let ?s1 = "snd (Output cfg sEraseString s)"
      from assms(3) bs True have
        "rx_write (?s1\<lparr>mRxLength := u16 (int (mRxLength ?s1) - 1)\<rparr>)
           (int (mRxLength (?s1\<lparr>mRxLength := u16 (int (mRxLength ?s1) - 1)\<rparr>))) 0 = Inr s'"
        by (auto simp: ReceiveByte_def Let_def split: if_splits)
      from tx_ok_rx_write [OF this, of cfg] out [OF assms(2), of sEraseString]
      show ?thesis by simp
    next
      case False
      with assms(3) bs have "s' = s"
        by (auto simp: ReceiveByte_def Let_def split: if_splits)
      with assms(2) show ?thesis by simp
    qed
  next
    case other
    let ?s1 = "snd (Output cfg [b] s)"
    from assms(3) other obtain s2 where w: "rx_write ?s1 (int (mRxLength ?s1)) b = Inr s2"
      and s': "s' = s2\<lparr>mRxLength := u16 (int (mRxLength s2) + 1)\<rparr>"
      by (auto simp: ReceiveByte_def Let_def split: if_splits sum.splits)
    from tx_ok_rx_write [OF w, of cfg] out [OF assms(2), of "[b]"]
    show ?thesis unfolding s' by simp
  qed
qed

lemma tx_ok_ReceiveTask:
  "cfg_ok cfg \<Longrightarrow> tx_ok cfg s \<Longrightarrow> ReceiveTask cfg interp bs s = Inr s' \<Longrightarrow> tx_ok cfg s'"
proof (induction bs arbitrary: s)
  case Nil
  then show ?case by simp
next
  case (Cons b bs)
  from Cons.prems(3) obtain s1 where b: "ReceiveByte cfg interp b s = Inr s1"
    and r: "ReceiveTask cfg interp bs s1 = Inr s'"
    by (auto split: sum.splits)
  from tx_ok_ReceiveByte [OF Cons.prems(1,2) b] have "tx_ok cfg s1" .
  from Cons.IH [OF Cons.prems(1) this r] show ?case .
qed

lemma reachable_tx_ok: "reachable cfg interp s \<Longrightarrow> cfg_ok cfg \<Longrightarrow> tx_ok cfg s"
proof (induction rule: reachable.induct)
  case constructed
  then show ?case by (rule tx_ok_Uart)
next
  case (after_Output s aBuf)
  then show ?case by (simp add: tx_ok_Output tx_ok_wf)
next
  case (after_Send s)
  then show ?case by (simp add: tx_ok_Send tx_ok_wf)
next
  case (after_SendDoneTask s)
  then show ?case by (simp add: tx_ok_SendDoneTask tx_ok_wf)
next
  case (after_ReceiveTask s aBuf s')
  then show ?case using tx_ok_ReceiveTask by blast
qed

subsection \<open>The transmit ring\<close>

lemma tx_ok_ring_invariant: "tx_ok cfg s \<Longrightarrow> ring_invariant cfg s"
  by (simp add: tx_ok_def tx_wf_def ring_invariant_def)

lemma cfg4_ok: "cfg_ok cfg4"
  by (simp add: cfg_ok_def cfg4_def)

lemmas tx_unfold = cfg4_def Uart_def ring4_def Output_def Send_def SendDoneTask_def u16_def Let_def

text \<open>
  Claim C3, the invariant of the transmit ring: in-flight length \<open>\<le>\<close> queued length
  \<open>\<le>\<close> capacity holds after construction and in every reachable state, and it holds
  again after \<open>Output\<close>, \<open>Send\<close> and \<open>SendDoneTask\<close> run from such a state.
\<close>

theorem tx_ring_invariant:
  assumes "cfg_ok cfg" "reachable cfg interp s"
  shows "ring_invariant cfg (Uart cfg) \<and> ring_invariant cfg s \<and>
         ring_invariant cfg (snd (Output cfg aBuf s)) \<and>
         ring_invariant cfg (Send cfg s) \<and>
         ring_invariant cfg (SendDoneTask cfg s)"
proof -
  from reachable_tx_ok [OF assms(2,1)] have ok: "tx_ok cfg s" .
  then have wf: "tx_wf cfg s" by (rule tx_ok_wf)
  show ?thesis
    using assms(1) ok wf
    by (simp add: tx_ok_ring_invariant tx_ok_Uart tx_ok_Output tx_ok_Send tx_ok_SendDoneTask)
qed

theorem tx_ring_invariant_witness:
  "cfg_ok cfg4 \<and> reachable cfg4 silent (snd (Output cfg4 [1, 2, 3] (Uart cfg4))) \<and>
   ring_invariant cfg4 (snd (Output cfg4 [1, 2, 3] (Uart cfg4))) \<and>
   ring_invariant cfg4 (snd (Output cfg4 [4, 5] (snd (Output cfg4 [1, 2, 3] (Uart cfg4))))) \<and>
   ring_invariant cfg4 (SendDoneTask cfg4 (snd (Output cfg4 [1, 2, 3] (Uart cfg4))))"
proof -
  have r: "reachable cfg4 silent (snd (Output cfg4 [1, 2, 3] (Uart cfg4)))"
    by (rule after_Output) (rule constructed)
  from tx_ring_invariant [OF cfg4_ok r, of "[4, 5]"] cfg4_ok r show ?thesis by simp
qed

text \<open>
  Claim C4, the send-pump: with a send in flight \<open>Send\<close> changes nothing; idle with
  an empty queue it changes nothing (no send is issued); idle with queued bytes it sets
  the in-flight length to the minimum of the queued length and the distance from the
  head to the end of the array, which is positive, and hands the driver exactly one
  span: that many bytes of the array starting at the head.
\<close>

theorem Send_pump:
  assumes "cfg_ok cfg" "length (mTxBuffer s) = kTxBufferSize cfg" "mTxHead s < kTxBufferSize cfg"
  shows "(0 < mSendLength s \<longrightarrow> Send cfg s = s) \<and>
         (mSendLength s = 0 \<and> mTxLength s = 0 \<longrightarrow> Send cfg s = s) \<and>
         (mSendLength s = 0 \<and> 0 < mTxLength s \<longrightarrow>
            (let n = min (mTxLength s) (kTxBufferSize cfg - mTxHead s);
                 span = take n (drop (mTxHead s) (mTxBuffer s))
             in Send cfg s = s\<lparr>mSendLength := n,
                                otPlatUartSend_calls := otPlatUartSend_calls s @ [span]\<rparr> \<and>
                0 < n \<and> length span = n \<and>
                (\<forall>i<n. span ! i = mTxBuffer s ! (mTxHead s + i))))"
proof (intro conjI impI)
  assume "0 < mSendLength s"
  then show "Send cfg s = s" by (simp add: Send_busy)
next
  assume "mSendLength s = 0 \<and> mTxLength s = 0"
  then show "Send cfg s = s"
    using Send_idle [OF assms(1,3)] by (simp add: Let_def)
next
  assume a: "mSendLength s = 0 \<and> 0 < mTxLength s"
  let ?n = "min (mTxLength s) (kTxBufferSize cfg - mTxHead s)"
  have n: "0 < ?n" using a assms(3) by simp
  have "Send cfg s = s\<lparr>mSendLength := ?n,
      otPlatUartSend_calls := otPlatUartSend_calls s @ [take ?n (drop (mTxHead s) (mTxBuffer s))]\<rparr>"
    using Send_idle [OF assms(1,3)] a n by (simp add: Let_def)
  moreover have "length (take ?n (drop (mTxHead s) (mTxBuffer s))) = ?n"
    using assms(2,3) by simp
  moreover have "\<forall>i<?n. take ?n (drop (mTxHead s) (mTxBuffer s)) ! i = mTxBuffer s ! (mTxHead s + i)"
    using assms(2,3) by simp
  ultimately show "let n = ?n; span = take n (drop (mTxHead s) (mTxBuffer s))
             in Send cfg s = s\<lparr>mSendLength := n,
                                otPlatUartSend_calls := otPlatUartSend_calls s @ [span]\<rparr> \<and>
                0 < n \<and> length span = n \<and>
                (\<forall>i<n. span ! i = mTxBuffer s ! (mTxHead s + i))"
    using n unfolding Let_def by blast
qed

theorem Send_pump_witness:
  "cfg_ok cfg4 \<and> length (mTxBuffer ring4) = kTxBufferSize cfg4 \<and> mTxHead ring4 < kTxBufferSize cfg4 \<and>
   mSendLength ring4 = 0 \<and> 0 < mTxLength ring4 \<and>
   Send cfg4 ring4 = ring4\<lparr>mSendLength := 1, otPlatUartSend_calls := [[4]]\<rparr>"
proof -
  have h: "length (mTxBuffer ring4) = kTxBufferSize cfg4" "mTxHead ring4 < kTxBufferSize cfg4"
    by (simp_all add: ring4_def cfg4_def Uart_def)
  from Send_pump [OF cfg4_ok h] cfg4_ok h show ?thesis
    by (simp add: ring4_def cfg4_def Uart_def Let_def)
qed

text \<open>
  Claim C5, \<open>Output\<close>: on a ring whose queued length is at most the capacity, it
  accepts \<open>n = min (length aBuf) (capacity - queued length)\<close> bytes, returns \<open>n\<close>,
  adds \<open>n\<close> to the queued length, leaves the head alone, stores byte \<open>i\<close> of the
  span at offset \<open>(head + queued length + i) mod capacity\<close>, leaves every other cell
  as it was, and returns 0 when the ring is full.
\<close>

theorem Output_accepts:
  assumes "cfg_ok cfg" "length (mTxBuffer s) = kTxBufferSize cfg" "mTxLength s \<le> kTxBufferSize cfg"
  shows "(let n = min (length aBuf) (kTxBufferSize cfg - mTxLength s);
              s' = snd (Output cfg aBuf s)
          in fst (Output cfg aBuf s) = int n \<and>
             mTxLength s' = mTxLength s + n \<and>
             mTxHead s' = mTxHead s \<and>
             (\<forall>i<n. mTxBuffer s' ! ((mTxHead s + mTxLength s + i) mod kTxBufferSize cfg) = aBuf ! i) \<and>
             (\<forall>j. (\<forall>i<n. j \<noteq> (mTxHead s + mTxLength s + i) mod kTxBufferSize cfg) \<longrightarrow>
                  mTxBuffer s' ! j = mTxBuffer s ! j) \<and>
             (mTxLength s = kTxBufferSize cfg \<longrightarrow> fst (Output cfg aBuf s) = 0))"
proof -
  let ?cap = "kTxBufferSize cfg"
  let ?acc = "take (?cap - mTxLength s) aBuf"
  let ?n = "min (length aBuf) (?cap - mTxLength s)"
  have len: "length ?acc = ?n" by simp
  have out: "Output cfg aBuf s = (int ?n, Send cfg (enqueue cfg ?acc s))"
    using Output_enqueue [OF assms(1,3), of aBuf] by simp
  have buf: "mTxBuffer (snd (Output cfg aBuf s))
             = ring_put ?cap (mTxHead s + mTxLength s) ?acc (mTxBuffer s)"
    by (simp add: out enqueue_def)
  have le: "length ?acc \<le> ?cap" by simp
  have 1: "\<forall>i<?n. mTxBuffer (snd (Output cfg aBuf s)) ! ((mTxHead s + mTxLength s + i) mod ?cap) = aBuf ! i"
  proof (intro allI impI)
    fix i assume i: "i < ?n"
    then have "i < length ?acc" by simp
    from ring_put_nth [OF assms(2) le this, of "mTxHead s + mTxLength s"] i
    show "mTxBuffer (snd (Output cfg aBuf s)) ! ((mTxHead s + mTxLength s + i) mod ?cap) = aBuf ! i"
      by (simp add: buf)
  qed
  have 2: "\<forall>j. (\<forall>i<?n. j \<noteq> (mTxHead s + mTxLength s + i) mod ?cap) \<longrightarrow>
               mTxBuffer (snd (Output cfg aBuf s)) ! j = mTxBuffer s ! j"
  proof (intro allI impI)
    fix j assume "\<forall>i<?n. j \<noteq> (mTxHead s + mTxLength s + i) mod ?cap"
    then have "\<forall>i<length ?acc. j \<noteq> (mTxHead s + mTxLength s + i) mod ?cap" by simp
    from ring_put_other [OF this]
    show "mTxBuffer (snd (Output cfg aBuf s)) ! j = mTxBuffer s ! j" by (simp add: buf)
  qed
  have 3: "mTxLength (snd (Output cfg aBuf s)) = mTxLength s + ?n"
    by (simp add: out enqueue_def)
  have 4: "fst (Output cfg aBuf s) = int ?n" by (simp add: out)
  have 5: "mTxLength s = ?cap \<longrightarrow> fst (Output cfg aBuf s) = 0" by (simp add: out)
  show ?thesis unfolding Let_def using 1 2 3 4 5 by simp
qed

theorem Output_accepts_witness:
  "cfg_ok cfg4 \<and> length (mTxBuffer ring4) = kTxBufferSize cfg4 \<and> mTxLength ring4 \<le> kTxBufferSize cfg4 \<and>
   fst (Output cfg4 [7, 8, 9] ring4) = 1 \<and>
   mTxLength (snd (Output cfg4 [7, 8, 9] ring4)) = 4 \<and>
   mTxBuffer (snd (Output cfg4 [7, 8, 9] ring4)) ! 2 = 7"
proof -
  have h: "length (mTxBuffer ring4) = kTxBufferSize cfg4" "mTxLength ring4 \<le> kTxBufferSize cfg4"
    by (simp_all add: ring4_def cfg4_def Uart_def)
  from Output_accepts [OF cfg4_ok h, of "[7, 8, 9]"] cfg4_ok h show ?thesis
    by (simp add: ring4_def cfg4_def Uart_def Let_def)
qed

lemma perform_busy:
  "0 < mSendLength s \<Longrightarrow>
   otPlatUartSend_calls (perform cfg c s) = otPlatUartSend_calls s \<and>
   mSendLength (perform cfg c s) = mSendLength s"
  by (cases c) (simp_all add: Output_def Let_def Send_busy)

text \<open>
  Claim C6, one send in flight at most: from a state with a send in flight, any
  sequence of writes and runs of the send-pump hands nothing to the driver and leaves
  the in-flight length as it is; only a completion can change that.
\<close>

theorem single_send_in_flight:
  "0 < mSendLength s \<Longrightarrow>
   otPlatUartSend_calls (fold (perform cfg) cs s) = otPlatUartSend_calls s \<and>
   mSendLength (fold (perform cfg) cs s) = mSendLength s"
proof (induction cs arbitrary: s)
  case Nil
  then show ?case by simp
next
  case (Cons c cs)
  from perform_busy [OF Cons.prems, of cfg c]
  have p: "otPlatUartSend_calls (perform cfg c s) = otPlatUartSend_calls s"
    "mSendLength (perform cfg c s) = mSendLength s" by simp_all
  with Cons.prems have "0 < mSendLength (perform cfg c s)" by simp
  from Cons.IH [OF this] p show ?case by simp
qed

theorem single_send_in_flight_witness:
  "0 < mSendLength (snd (Output cfg4 [1, 2] (Uart cfg4))) \<and>
   otPlatUartSend_calls (fold (perform cfg4) [WriteCall [3], PumpCall] (snd (Output cfg4 [1, 2] (Uart cfg4))))
     = [[1, 2]]"
proof -
  have h: "0 < mSendLength (snd (Output cfg4 [1, 2] (Uart cfg4)))"
    by (simp add: tx_unfold)
  have c: "otPlatUartSend_calls (snd (Output cfg4 [1, 2] (Uart cfg4))) = [[1, 2]]"
    by code_simp
  from single_send_in_flight [OF h, of cfg4 "[WriteCall [3], PumpCall]"] h c show ?thesis
    by simp
qed

text \<open>
  Claim C7, spurious completion: in a reachable state with no send outstanding,
  \<open>SendDoneTask\<close> returns the state it was given: head, lengths, buffer and the
  record of driver calls are all unchanged.
\<close>

theorem spurious_SendDoneTask:
  assumes "cfg_ok cfg" "reachable cfg interp s" "mSendLength s = 0"
  shows "SendDoneTask cfg s = s"
proof -
  from reachable_tx_ok [OF assms(2,1)] have ok: "tx_ok cfg s" .
  then have wf: "tx_wf cfg s" and len: "mTxLength s = 0"
    using assms(3) by (simp_all add: tx_ok_def tx_quiet_def)
  from wf have h: "mTxHead s < kTxBufferSize cfg" by (simp add: tx_wf_def)
  have "advance cfg s = s" using h len assms(3) by (simp add: advance_def)
  moreover have "Send cfg s = s"
    using Send_idle [OF assms(1) h assms(3)] len by (simp add: Let_def)
  ultimately show ?thesis by (simp add: SendDoneTask_advance [OF assms(1) wf])
qed

theorem spurious_SendDoneTask_witness:
  "cfg_ok cfg4 \<and>
   reachable cfg4 silent (SendDoneTask cfg4 (snd (Output cfg4 [1, 2] (Uart cfg4)))) \<and>
   mSendLength (SendDoneTask cfg4 (snd (Output cfg4 [1, 2] (Uart cfg4)))) = 0 \<and>
   SendDoneTask cfg4 (SendDoneTask cfg4 (snd (Output cfg4 [1, 2] (Uart cfg4))))
     = SendDoneTask cfg4 (snd (Output cfg4 [1, 2] (Uart cfg4)))"
proof -
  have r: "reachable cfg4 silent (SendDoneTask cfg4 (snd (Output cfg4 [1, 2] (Uart cfg4))))"
    by (intro after_SendDoneTask after_Output constructed)
  have z: "mSendLength (SendDoneTask cfg4 (snd (Output cfg4 [1, 2] (Uart cfg4)))) = 0"
    by (simp add: tx_unfold)
  from spurious_SendDoneTask [OF cfg4_ok r z] cfg4_ok r z show ?thesis by simp
qed

text \<open>
  Claim C10, idle only when empty: in every reachable state, and after \<open>Output\<close>,
  \<open>Send\<close> or \<open>SendDoneTask\<close> run from one, in-flight length 0 implies queued
  length 0.
\<close>

theorem idle_only_when_empty:
  assumes "cfg_ok cfg" "reachable cfg interp s"
  shows "tx_quiet (Uart cfg) \<and> tx_quiet s \<and> tx_quiet (snd (Output cfg aBuf s)) \<and>
         tx_quiet (Send cfg s) \<and> tx_quiet (SendDoneTask cfg s)"
proof -
  from reachable_tx_ok [OF assms(2,1)] have ok: "tx_ok cfg s" .
  then have wf: "tx_wf cfg s" by (rule tx_ok_wf)
  have "tx_quiet (Uart cfg)" by (simp add: tx_quiet_def Uart_def)
  then show ?thesis
    using assms(1) ok wf
    by (simp add: tx_quiet_Output tx_quiet_Send tx_quiet_SendDoneTask tx_ok_def)
qed

theorem idle_only_when_empty_witness:
  "cfg_ok cfg4 \<and> reachable cfg4 silent (snd (Output cfg4 [1, 2, 3] (Uart cfg4))) \<and>
   tx_quiet (snd (Output cfg4 [1, 2, 3] (Uart cfg4))) \<and>
   tx_quiet (SendDoneTask cfg4 (snd (Output cfg4 [1, 2, 3] (Uart cfg4))))"
proof -
  have r: "reachable cfg4 silent (snd (Output cfg4 [1, 2, 3] (Uart cfg4)))"
    by (rule after_Output) (rule constructed)
  from idle_only_when_empty [OF cfg4_ok r, of "[]"] cfg4_ok r show ?thesis by simp
qed

subsection \<open>Round trip through the ring\<close>

lemma calls_Send: "\<exists>sp. otPlatUartSend_calls (Send cfg s) = otPlatUartSend_calls s @ sp"
  by (simp add: Send_def Let_def)

lemma calls_Output: "\<exists>sp. otPlatUartSend_calls (snd (Output cfg w s)) = otPlatUartSend_calls s @ sp"
  using calls_Send [of cfg "Output_loop cfg (take (if u16 (int (kTxBufferSize cfg) - int (mTxLength s)) < length w
      then u16 (int (kTxBufferSize cfg) - int (mTxLength s)) else length w) w) s"]
  by (simp add: Output_def Let_def)

lemma calls_SendDoneTask: "\<exists>sp. otPlatUartSend_calls (SendDoneTask cfg s) = otPlatUartSend_calls s @ sp"
  using calls_Send [of cfg "s\<lparr>mTxHead := u16 ((int (mTxHead s) + int (mSendLength s)) mod int (kTxBufferSize cfg)),
          mTxLength := u16 (int (mTxLength s) - int (mSendLength s)),
          mSendLength := 0\<rparr>"]
  by (simp add: SendDoneTask_def)

lemma mTxLength_SendDoneTask:
  "cfg_ok cfg \<Longrightarrow> tx_wf cfg s \<Longrightarrow> mTxLength (SendDoneTask cfg s) = mTxLength s - mSendLength s"
  by (simp add: SendDoneTask_advance advance_def)

lemma drain_ok:
  assumes "cfg_ok cfg" "tx_ok cfg s"
  shows "\<exists>s'. drain cfg s = Some s' \<and> tx_ok cfg s' \<and> mSendLength s' = 0 \<and> mTxLength s' = 0 \<and>
              stream cfg s' = stream cfg s \<and>
              (\<exists>sp. otPlatUartSend_calls s' = otPlatUartSend_calls s @ sp)"
  using assms(2)
proof (induction "mTxLength s" arbitrary: s rule: less_induct)
  case less
  show ?case
  proof (cases "mSendLength s = 0")
    case True
    with less.prems have "mTxLength s = 0" by (simp add: tx_ok_def tx_quiet_def)
    moreover have "drain cfg s = Some s" using True by (simp add: drain.simps)
    ultimately show ?thesis using True less.prems by simp
  next
    case False
    from less.prems have wf: "tx_wf cfg s" by (rule tx_ok_wf)
    let ?s1 = "SendDoneTask cfg s"
    have ok1: "tx_ok cfg ?s1" by (rule tx_ok_SendDoneTask [OF assms(1) wf])
    have "mSendLength s \<le> mTxLength s" using wf by (simp add: tx_wf_def)
    with False have dec: "mTxLength ?s1 < mTxLength s"
      by (simp add: mTxLength_SendDoneTask [OF assms(1) wf])
    from less.hyps [OF dec ok1] obtain s' sp where
      s': "drain cfg ?s1 = Some s'" "tx_ok cfg s'" "mSendLength s' = 0" "mTxLength s' = 0"
          "stream cfg s' = stream cfg ?s1" "otPlatUartSend_calls s' = otPlatUartSend_calls ?s1 @ sp"
      by blast
    obtain sp1 where sp1: "otPlatUartSend_calls ?s1 = otPlatUartSend_calls s @ sp1"
      using calls_SendDoneTask by blast
    have "drain cfg s = Some s'" using False s'(1) by (simp add: drain.simps)
    moreover have "stream cfg s' = stream cfg s"
      using s'(5) by (simp add: stream_SendDoneTask [OF assms(1) wf])
    moreover have "otPlatUartSend_calls s' = otPlatUartSend_calls s @ (sp1 @ sp)"
      using s'(6) sp1 by simp
    ultimately show ?thesis using s'(2,3,4) by blast
  qed
qed

lemma mTxLength_Output:
  "cfg_ok cfg \<Longrightarrow> mTxLength s \<le> kTxBufferSize cfg \<Longrightarrow>
   mTxLength (snd (Output cfg w s)) = mTxLength s + min (length w) (kTxBufferSize cfg - mTxLength s)"
  by (simp add: Output_enqueue enqueue_def)

lemma run_ok:
  assumes "cfg_ok cfg"
  shows "tx_ok cfg s \<Longrightarrow>
         mTxLength s + length (concat (map written steps)) \<le> kTxBufferSize cfg \<Longrightarrow>
         \<exists>s'. run cfg steps s = Some s' \<and> tx_ok cfg s' \<and>
              stream cfg s' = stream cfg s @ concat (map written steps) \<and>
              (\<exists>sp. otPlatUartSend_calls s' = otPlatUartSend_calls s @ sp) \<and>
              (steps \<noteq> [] \<and> last steps = Drain \<longrightarrow> mTxLength s' = 0 \<and> mSendLength s' = 0)"
proof (induction steps arbitrary: s)
  case Nil
  then show ?case by simp
next
  case (Cons st steps)
  from Cons.prems(1) have wf: "tx_wf cfg s" by (rule tx_ok_wf)
  then have len: "mTxLength s \<le> kTxBufferSize cfg" by (simp add: tx_wf_def)
  show ?case
  proof (cases st)
    case (Write w)
    let ?s1 = "snd (Output cfg w s)"
    have fit: "length w \<le> kTxBufferSize cfg - mTxLength s"
      using Cons.prems(2) Write by simp
    have ok1: "tx_ok cfg ?s1" by (rule tx_ok_Output [OF assms wf])
    have l1: "mTxLength ?s1 = mTxLength s + length w"
      using fit by (simp add: mTxLength_Output [OF assms len])
    then have room: "mTxLength ?s1 + length (concat (map written steps)) \<le> kTxBufferSize cfg"
      using Cons.prems(2) Write by simp
    have st1: "stream cfg ?s1 = stream cfg s @ w"
      using fit by (simp add: stream_Output [OF assms wf])
    obtain sp1 where sp1: "otPlatUartSend_calls ?s1 = otPlatUartSend_calls s @ sp1"
      using calls_Output by blast
    from Cons.IH [OF ok1 room] obtain s' sp where
      s': "run cfg steps ?s1 = Some s'" "tx_ok cfg s'"
          "stream cfg s' = stream cfg ?s1 @ concat (map written steps)"
          "otPlatUartSend_calls s' = otPlatUartSend_calls ?s1 @ sp"
          "steps \<noteq> [] \<and> last steps = Drain \<longrightarrow> mTxLength s' = 0 \<and> mSendLength s' = 0"
      by blast
    have "otPlatUartSend_calls s' = otPlatUartSend_calls s @ (sp1 @ sp)"
      using s'(4) sp1 by simp
    then show ?thesis using s' st1 Write by auto
  next
    case Complete
    let ?s1 = "SendDoneTask cfg s"
    have ok1: "tx_ok cfg ?s1" by (rule tx_ok_SendDoneTask [OF assms wf])
    have "mTxLength ?s1 \<le> mTxLength s"
      by (simp add: mTxLength_SendDoneTask [OF assms wf])
    then have room: "mTxLength ?s1 + length (concat (map written steps)) \<le> kTxBufferSize cfg"
      using Cons.prems(2) Complete by simp
    obtain sp1 where sp1: "otPlatUartSend_calls ?s1 = otPlatUartSend_calls s @ sp1"
      using calls_SendDoneTask by blast
    from Cons.IH [OF ok1 room] obtain s' sp where
      s': "run cfg steps ?s1 = Some s'" "tx_ok cfg s'"
          "stream cfg s' = stream cfg ?s1 @ concat (map written steps)"
          "otPlatUartSend_calls s' = otPlatUartSend_calls ?s1 @ sp"
          "steps \<noteq> [] \<and> last steps = Drain \<longrightarrow> mTxLength s' = 0 \<and> mSendLength s' = 0"
      by blast
    have "otPlatUartSend_calls s' = otPlatUartSend_calls s @ (sp1 @ sp)"
      using s'(4) sp1 by simp
    then show ?thesis
      using s' Complete by (auto simp: stream_SendDoneTask [OF assms wf])
  next
    case Drain
    from drain_ok [OF assms Cons.prems(1)] obtain s1 sp1 where
      s1: "drain cfg s = Some s1" "tx_ok cfg s1" "mSendLength s1 = 0" "mTxLength s1 = 0"
          "stream cfg s1 = stream cfg s" "otPlatUartSend_calls s1 = otPlatUartSend_calls s @ sp1"
      by blast
    have room: "mTxLength s1 + length (concat (map written steps)) \<le> kTxBufferSize cfg"
      using Cons.prems(2) Drain s1(4) by simp
    from Cons.IH [OF s1(2) room] obtain s' sp where
      s': "run cfg steps s1 = Some s'" "tx_ok cfg s'"
          "stream cfg s' = stream cfg s1 @ concat (map written steps)"
          "otPlatUartSend_calls s' = otPlatUartSend_calls s1 @ sp"
          "steps \<noteq> [] \<and> last steps = Drain \<longrightarrow> mTxLength s' = 0 \<and> mSendLength s' = 0"
      by blast
    have c: "otPlatUartSend_calls s' = otPlatUartSend_calls s @ (sp1 @ sp)"
      using s'(4) s1(6) by simp
    have "steps = [] \<Longrightarrow> s' = s1" using s'(1) by simp
    then have "mTxLength s' = 0 \<and> mSendLength s' = 0" if "last (st # steps) = Drain"
      using that s'(5) s1(3,4) by (cases "steps = []") auto
    then show ?thesis using s' s1 Drain c by auto
  qed
qed


lemma stream_empty: "mTxLength s = 0 \<Longrightarrow> stream cfg s = concat (otPlatUartSend_calls s)"
  by (simp add: stream_def unsent_def queued_def)

text \<open>
  Claim C2, round trip. Take an empty idle ring (at any head offset) and any schedule of
  writes and completion signals in which the writes total at most the capacity; run it
  and let the driver complete every send until none is outstanding. The run ends with
  an empty ring, and the spans handed to \<open>otPlatUartSend\<close> during it, concatenated
  in order, are exactly the bytes written, concatenated in order. Completing every send
  right after each write, or only after the last write, are two such schedules.
\<close>

theorem write_drain_roundtrip:
  assumes "cfg_ok cfg"
    and "length (mTxBuffer s) = kTxBufferSize cfg" and "mTxHead s < kTxBufferSize cfg"
    and "mTxLength s = 0" and "mSendLength s = 0"
    and "length (concat (map written steps)) \<le> kTxBufferSize cfg"
  shows "\<exists>s' spans. run cfg (steps @ [Drain]) s = Some s' \<and>
           otPlatUartSend_calls s' = otPlatUartSend_calls s @ spans \<and>
           concat spans = concat (map written steps) \<and>
           mTxLength s' = 0 \<and> mSendLength s' = 0"
proof -
  have ok: "tx_ok cfg s" using assms(2-5) by (simp add: tx_ok_def tx_wf_def tx_quiet_def)
  have room: "mTxLength s + length (concat (map written (steps @ [Drain]))) \<le> kTxBufferSize cfg"
    using assms(4,6) by simp
  from run_ok [OF assms(1) ok room] obtain s' sp where
    s': "run cfg (steps @ [Drain]) s = Some s'"
        "stream cfg s' = stream cfg s @ concat (map written (steps @ [Drain]))"
        "otPlatUartSend_calls s' = otPlatUartSend_calls s @ sp"
        "mTxLength s' = 0" "mSendLength s' = 0"
    by auto
  from s'(2) have "concat (otPlatUartSend_calls s') = concat (otPlatUartSend_calls s) @ concat (map written steps)"
    by (simp add: stream_empty s'(4) assms(4))
  with s'(3) have "concat sp = concat (map written steps)" by simp
  with s' show ?thesis by blast
qed

theorem write_drain_roundtrip_witness:
  "cfg_ok cfg4 \<and> mTxLength empty3 = 0 \<and> mSendLength empty3 = 0 \<and>
   length (concat (map written [Write [1, 2], Write [3], Complete, Write [4]])) \<le> kTxBufferSize cfg4 \<and>
   (\<exists>s'. run cfg4 ([Write [1, 2], Write [3], Complete, Write [4]] @ [Drain]) empty3 = Some s' \<and>
         concat (otPlatUartSend_calls s') = [1, 2, 3, 4] \<and> mTxLength s' = 0)"
proof -
  have h: "length (mTxBuffer empty3) = kTxBufferSize cfg4" "mTxHead empty3 < kTxBufferSize cfg4"
    "mTxLength empty3 = 0" "mSendLength empty3 = 0"
    "length (concat (map written [Write [1, 2], Write [3], Complete, Write [4]])) \<le> kTxBufferSize cfg4"
    by (simp_all add: empty3_def Uart_def cfg4_def)
  from write_drain_roundtrip [OF cfg4_ok h] obtain s' spans where
    "run cfg4 ([Write [1, 2], Write [3], Complete, Write [4]] @ [Drain]) empty3 = Some s'"
    "otPlatUartSend_calls s' = otPlatUartSend_calls empty3 @ spans"
    "concat spans = concat (map written [Write [1, 2], Write [3], Complete, Write [4]])"
    "mTxLength s' = 0"
    by blast
  then show ?thesis using cfg4_ok h(3,4,5) by (simp add: empty3_def Uart_def)
qed

subsection \<open>The line assembler\<close>

lemma Send_rx_update:
  "Send cfg (s\<lparr>mRxBuffer := b\<rparr>) = (Send cfg s)\<lparr>mRxBuffer := b\<rparr>"
  "Send cfg (s\<lparr>mRxLength := n\<rparr>) = (Send cfg s)\<lparr>mRxLength := n\<rparr>"
  "Send cfg (s\<lparr>ProcessLine_calls := c\<rparr>) = (Send cfg s)\<lparr>ProcessLine_calls := c\<rparr>"
  by (simp_all add: Send_def Let_def)

lemma Output_loop_commute:
  assumes upd: "\<And>t X Y. U (t\<lparr>mTxBuffer := X, mTxLength := Y\<rparr>) = (U t)\<lparr>mTxBuffer := X, mTxLength := Y\<rparr>"
    and frame: "\<And>t. mTxBuffer (U t) = mTxBuffer t" "\<And>t. mTxHead (U t) = mTxHead t"
      "\<And>t. mTxLength (U t) = mTxLength t"
  shows "Output_loop cfg cs (U s) = U (Output_loop cfg cs s)"
proof (induction cs arbitrary: s)
  case Nil
  show ?case by simp
next
  case (Cons c cs)
  show ?case
    by (simp only: Output_loop.simps Let_def frame upd [symmetric] Cons.IH)
qed

lemma Output_loop_rx_update:
  "Output_loop cfg cs (s\<lparr>mRxBuffer := b\<rparr>) = (Output_loop cfg cs s)\<lparr>mRxBuffer := b\<rparr>"
  "Output_loop cfg cs (s\<lparr>mRxLength := n\<rparr>) = (Output_loop cfg cs s)\<lparr>mRxLength := n\<rparr>"
  "Output_loop cfg cs (s\<lparr>ProcessLine_calls := c\<rparr>) = (Output_loop cfg cs s)\<lparr>ProcessLine_calls := c\<rparr>"
  by (rule Output_loop_commute; simp)+

lemma Output_rx_update:
  "snd (Output cfg w (s\<lparr>mRxBuffer := b\<rparr>)) = (snd (Output cfg w s))\<lparr>mRxBuffer := b\<rparr>"
  "snd (Output cfg w (s\<lparr>mRxLength := n\<rparr>)) = (snd (Output cfg w s))\<lparr>mRxLength := n\<rparr>"
  "snd (Output cfg w (s\<lparr>ProcessLine_calls := c\<rparr>)) = (snd (Output cfg w s))\<lparr>ProcessLine_calls := c\<rparr>"
  by (simp_all add: Output_def Let_def Output_loop_rx_update Send_rx_update)

lemma fold_Output_rx_update:
  "fold (\<lambda>w t. snd (Output cfg w t)) ws (s\<lparr>mRxBuffer := b\<rparr>)
     = (fold (\<lambda>w t. snd (Output cfg w t)) ws s)\<lparr>mRxBuffer := b\<rparr>"
  "fold (\<lambda>w t. snd (Output cfg w t)) ws (s\<lparr>mRxLength := n\<rparr>)
     = (fold (\<lambda>w t. snd (Output cfg w t)) ws s)\<lparr>mRxLength := n\<rparr>"
  "fold (\<lambda>w t. snd (Output cfg w t)) ws (s\<lparr>ProcessLine_calls := c\<rparr>)
     = (fold (\<lambda>w t. snd (Output cfg w t)) ws s)\<lparr>ProcessLine_calls := c\<rparr>"
  by (induction ws arbitrary: s; simp add: Output_rx_update)+

lemma fold_Output_frame [simp]:
  "mRxBuffer (fold (\<lambda>w t. snd (Output cfg w t)) ws s) = mRxBuffer s"
  "mRxLength (fold (\<lambda>w t. snd (Output cfg w t)) ws s) = mRxLength s"
  "ProcessLine_calls (fold (\<lambda>w t. snd (Output cfg w t)) ws s) = ProcessLine_calls s"
  by (induction ws arbitrary: s; simp)+

lemma ReceiveTask_backspace:
  assumes "b = 0x08 \<or> b = 0x7F"
  shows "(mRxLength s = 0 \<longrightarrow> ReceiveTask cfg interp [b] s = Inr s) \<and>
         (0 < mRxLength s \<and> mRxLength s \<le> length (mRxBuffer s) \<and> mRxLength s < 65536 \<longrightarrow>
            ReceiveTask cfg interp [b] s =
              Inr ((snd (Output cfg sEraseString s))
                     \<lparr>mRxBuffer := (mRxBuffer s)[mRxLength s - 1 := 0],
                      mRxLength := mRxLength s - 1\<rparr>) \<and>
            sEraseString = [0x08, 0x20, 0x08])"
proof (intro conjI impI)
  assume "mRxLength s = 0"
  then show "ReceiveTask cfg interp [b] s = Inr s"
    using assms by (auto simp: ReceiveByte_def)
next
  assume a: "0 < mRxLength s \<and> mRxLength s \<le> length (mRxBuffer s) \<and> mRxLength s < 65536"
  then have u: "u16 (int (mRxLength s) - 1) = mRxLength s - 1"
    using u16_sub [of 1 "mRxLength s"] by simp
  have "b \<noteq> 0x0D" "b \<noteq> 0x0A" "b \<noteq> 0x03" using assms by auto
  then have "ReceiveByte cfg interp b s =
      rx_write ((snd (Output cfg sEraseString s))\<lparr>mRxLength := mRxLength s - 1\<rparr>)
        (int (mRxLength s - 1)) 0"
    using assms a by (simp add: ReceiveByte_def Let_def u)
  also have "\<dots> = Inr ((snd (Output cfg sEraseString s))
                     \<lparr>mRxBuffer := (mRxBuffer s)[mRxLength s - 1 := 0],
                      mRxLength := mRxLength s - 1\<rparr>)"
    using a by (simp add: rx_write_def nat_diff_distrib')
  finally show "ReceiveTask cfg interp [b] s =
              Inr ((snd (Output cfg sEraseString s))
                     \<lparr>mRxBuffer := (mRxBuffer s)[mRxLength s - 1 := 0],
                      mRxLength := mRxLength s - 1\<rparr>)"
    by simp
next
  show "sEraseString = [0x08, 0x20, 0x08]" by (simp add: sEraseString_def)
qed

lemma ReceiveByte_plain:
  assumes "plain cfg b"
  shows "ReceiveByte cfg interp b s =
     (if mRxLength s < length (mRxBuffer s)
      then Inr ((snd (Output cfg [b] s))
                  \<lparr>mRxBuffer := (mRxBuffer s)[mRxLength s := b],
                   mRxLength := u16 (int (mRxLength s) + 1)\<rparr>)
      else Inl RxBufferOutOfBounds)"
  using assms by (auto simp: plain_def ReceiveByte_def Let_def rx_write_def)

lemma ReceiveTask_append:
  "ReceiveTask cfg interp (xs @ ys) s =
     (case ReceiveTask cfg interp xs s of Inl e \<Rightarrow> Inl e | Inr s' \<Rightarrow> ReceiveTask cfg interp ys s')"
  by (induction xs arbitrary: s) (simp_all split: sum.splits)

lemma ReceiveTask_plain_fill:
  assumes "plain cfg b" "length (mRxBuffer s) < 65536"
  shows "mRxLength s + n \<le> length (mRxBuffer s) \<Longrightarrow>
         \<exists>s'. ReceiveTask cfg interp (replicate n b) s = Inr s' \<and>
              mRxLength s' = mRxLength s + n \<and> length (mRxBuffer s') = length (mRxBuffer s)"
proof (induction n)
  case 0
  then show ?case by simp
next
  case (Suc n)
  then obtain s1 where s1: "ReceiveTask cfg interp (replicate n b) s = Inr s1"
    "mRxLength s1 = mRxLength s + n" "length (mRxBuffer s1) = length (mRxBuffer s)"
    by auto
  have lt: "mRxLength s1 < length (mRxBuffer s1)" using s1 Suc.prems by simp
  then have "u16 (int (mRxLength s1) + 1) = Suc (mRxLength s1)"
    using assms(2) s1(3) by (simp add: u16_inc)
  with lt have "ReceiveByte cfg interp b s1 =
      Inr ((snd (Output cfg [b] s1))
             \<lparr>mRxBuffer := (mRxBuffer s1)[mRxLength s1 := b], mRxLength := Suc (mRxLength s1)\<rparr>)"
    by (simp add: ReceiveByte_plain [OF assms(1)])
  moreover have "replicate (Suc n) b = replicate n b @ [b]"
    by (simp add: replicate_append_same)
  ultimately show ?case
    using s1 by (simp add: ReceiveTask_append del: replicate_Suc)
qed

lemma ReceiveTask_plain_overrun:
  assumes "plain cfg b" "kRxBufferSize cfg < 65536"
  shows "(\<exists>s'. ReceiveTask cfg interp (replicate (kRxBufferSize cfg) b) (Uart cfg) = Inr s' \<and>
               mRxLength s' = kRxBufferSize cfg) \<and>
         ReceiveTask cfg interp (replicate (Suc (kRxBufferSize cfg)) b) (Uart cfg)
           = Inl RxBufferOutOfBounds"
proof -
  have l: "length (mRxBuffer (Uart cfg)) < 65536"
    "mRxLength (Uart cfg) + kRxBufferSize cfg \<le> length (mRxBuffer (Uart cfg))"
    using assms(2) by (simp_all add: Uart_def)
  from ReceiveTask_plain_fill [OF assms(1) l, of interp] obtain s' where
    s': "ReceiveTask cfg interp (replicate (kRxBufferSize cfg) b) (Uart cfg) = Inr s'"
    "mRxLength s' = kRxBufferSize cfg" "length (mRxBuffer s') = kRxBufferSize cfg"
    by (auto simp: Uart_def)
  have "ReceiveByte cfg interp b s' = Inl RxBufferOutOfBounds"
    using s'(2,3) by (simp add: ReceiveByte_plain [OF assms(1)])
  moreover have "replicate (Suc (kRxBufferSize cfg)) b = replicate (kRxBufferSize cfg) b @ [b]"
    by (simp add: replicate_append_same)
  ultimately have "ReceiveTask cfg interp (replicate (Suc (kRxBufferSize cfg)) b) (Uart cfg)
           = Inl RxBufferOutOfBounds"
    using s'(1) by (simp add: ReceiveTask_append del: replicate_Suc)
  with s' show ?thesis by blast
qed

text \<open>
  Claim C1 says that for every sequence of bytes without a terminator the receive length
  stays below the capacity and no byte is written past it. The code appends without a
  bound check. With a receive buffer of 128 bytes, 128 bytes \<open>a\<close> fed to the
  constructed object leave the length at 128, which is the capacity and so outside
  \<open>[0, capacity)\<close>; the 129th byte is written at index 128, outside the array.
\<close>

theorem receive_overruns_buffer:
  "(\<exists>s'. ReceiveTask cfg128 silent (replicate 128 0x61) (Uart cfg128) = Inr s' \<and>
         mRxLength s' = 128 \<and> \<not> mRxLength s' < kRxBufferSize cfg128) \<and>
   ReceiveTask cfg128 silent (replicate 129 0x61) (Uart cfg128) = Inl RxBufferOutOfBounds"
proof -
  have p: "plain cfg128 0x61" by (simp add: plain_def)
  have k: "kRxBufferSize cfg128 < 65536" "kRxBufferSize cfg128 = 128" "Suc 128 = 129"
    by (simp_all add: cfg128_def)
  from ReceiveTask_plain_overrun [OF p k(1), of silent] obtain s' where
    "ReceiveTask cfg128 silent (replicate 128 0x61) (Uart cfg128) = Inr s'" "mRxLength s' = 128"
    and over: "ReceiveTask cfg128 silent (replicate 129 0x61) (Uart cfg128) = Inl RxBufferOutOfBounds"
    unfolding k by blast
  then have "\<exists>s'. ReceiveTask cfg128 silent (replicate 128 0x61) (Uart cfg128) = Inr s' \<and>
         mRxLength s' = 128 \<and> \<not> mRxLength s' < kRxBufferSize cfg128"
    using k(2) by simp
  with over show ?thesis by (rule conjI [rotated])
qed

lemma strip_step_line:
  assumes "0 < mRxLength s" "mRxLength s \<le> length (mRxBuffer s)" "mRxLength s < 65536"
  shows "\<exists>buf n. strip_step c s = Inr (s\<lparr>mRxBuffer := buf, mRxLength := n\<rparr>) \<and>
           length buf = length (mRxBuffer s) \<and> n \<le> mRxLength s \<and>
           take n buf = (if last (line s) = c then butlast (line s) else line s)"
proof -
  let ?n = "mRxLength s"
  let ?B = "mRxBuffer s"
  have rd: "rx_read s (int ?n - 1) = Inr (?B ! (?n - 1))"
    using assms by (simp add: rx_read_def nat_diff_distrib')
  have "take ?n ?B \<noteq> []" using assms by auto
  then have "last (take ?n ?B) = take ?n ?B ! (length (take ?n ?B) - 1)"
    by (rule last_conv_nth)
  then have lst: "last (line s) = ?B ! (?n - 1)"
    using assms by (simp add: line_def)
  show ?thesis
  proof (cases "?B ! (?n - 1) = c")
    case True
    have u: "u16 (int ?n - 1) = ?n - 1"
      using u16_sub [of 1 ?n] assms by simp
    have "strip_step c s = Inr (s\<lparr>mRxBuffer := ?B[?n - 1 := 0], mRxLength := ?n - 1\<rparr>)"
      using True assms by (simp add: strip_step_def rd Let_def u rx_write_def nat_diff_distrib')
    moreover have "take (?n - 1) (?B[?n - 1 := 0]) = butlast (line s)"
      by (simp add: line_def butlast_take assms(2))
    ultimately show ?thesis using True lst assms by (intro exI [of _ "?B[?n - 1 := 0]"] exI [of _ "?n - 1"]) simp
  next
    case False
    then have "strip_step c s = Inr s"
      by (simp add: strip_step_def rd)
    then have "strip_step c s = Inr (s\<lparr>mRxBuffer := ?B, mRxLength := ?n\<rparr>)" by simp
    then show ?thesis using False lst assms
      by (intro exI [of _ ?B] exI [of _ ?n]) (simp add: line_def)
  qed
qed

lemma ProcessCommand_line:
  assumes "0 < mRxLength s" "mRxLength s \<le> length (mRxBuffer s)" "mRxLength s < 65536"
    and "line s \<noteq> [0x0A]"
  shows "\<exists>buf. ProcessCommand cfg interp s =
           Inr ((ProcessLine cfg interp
                   (s\<lparr>mRxBuffer := buf, mRxLength := length (strip_eol (line s))\<rparr>))\<lparr>mRxLength := 0\<rparr>) \<and>
           take (length (strip_eol (line s))) buf = strip_eol (line s)"
proof -
  from strip_step_line [OF assms(1-3), of "0x0A"] obtain buf1 n1 where
    1: "strip_step 0x0A s = Inr (s\<lparr>mRxBuffer := buf1, mRxLength := n1\<rparr>)"
       "length buf1 = length (mRxBuffer s)" "n1 \<le> mRxLength s"
       "take n1 buf1 = (if last (line s) = 0x0A then butlast (line s) else line s)"
    by blast
  let ?s1 = "s\<lparr>mRxBuffer := buf1, mRxLength := n1\<rparr>"
  have ne: "line s \<noteq> []" using assms(1,2) by (auto simp: line_def)
  have l1: "line ?s1 = (if line s \<noteq> [] \<and> last (line s) = 0x0A then butlast (line s) else line s)"
    using 1(4) ne by (simp add: line_def)
  have "line ?s1 \<noteq> []"
  proof
    assume e: "line ?s1 = []"
    with l1 ne have "last (line s) = 0x0A" "butlast (line s) = []" by (auto split: if_splits)
    with ne have "line s = [0x0A]" by (metis append_butlast_last_id append_Nil)
    with assms(4) show False by simp
  qed
  then have "0 < n1" by (auto simp: line_def)
  moreover have "n1 \<le> length buf1" "n1 < 65536" using 1(2,3) assms(2,3) by simp_all
  ultimately have h: "0 < mRxLength ?s1" "mRxLength ?s1 \<le> length (mRxBuffer ?s1)" "mRxLength ?s1 < 65536"
    by simp_all
  from strip_step_line [OF h, of "0x0D"] obtain buf2 n2 where
    st2: "strip_step 0x0D ?s1 = Inr (?s1\<lparr>mRxBuffer := buf2, mRxLength := n2\<rparr>)"
    and 2: "take n2 buf2 = (if last (line ?s1) = 0x0D then butlast (line ?s1) else line ?s1)"
       "length buf2 = length (mRxBuffer ?s1)" "n2 \<le> mRxLength ?s1"
    by blast
  have "n2 \<le> length buf2" using 2(2,3) h(2) by simp
  then have len2: "length (take n2 buf2) = n2" by simp
  have "take n2 buf2 = strip_eol (line s)"
    using 2(1) l1 \<open>line ?s1 \<noteq> []\<close> by (simp add: strip_eol_def Let_def)
  moreover from this len2 have "n2 = length (strip_eol (line s))" by simp
  ultimately show ?thesis
    using 1(1) st2 by (intro exI [of _ buf2]) (simp add: ProcessCommand_def)
qed

lemma ReceiveTask_terminator:
  assumes "b = 0x0D \<or> b = 0x0A"
  shows "(mRxLength s = 0 \<longrightarrow>
            ReceiveTask cfg interp [b] s =
              Inr (snd (Output cfg sCommandPrompt (snd (Output cfg CRNL s))))) \<and>
         (0 < mRxLength s \<and> mRxLength s < length (mRxBuffer s) \<and> mRxLength s < 65536 \<and>
          take (mRxLength s) (mRxBuffer s) \<noteq> [0x0A] \<longrightarrow>
            (let content = strip_eol (take (mRxLength s) (mRxBuffer s));
                 calls = ProcessLine_calls s @ [(content, length content)];
                 tx = snd (Output cfg sCommandPrompt
                            (fold (\<lambda>w t. snd (Output cfg w t)) (interp calls)
                               (snd (Output cfg CRNL s))))
             in \<exists>buf. ReceiveTask cfg interp [b] s =
                   Inr (tx\<lparr>mRxBuffer := buf, mRxLength := 0, ProcessLine_calls := calls\<rparr>)))"
proof (intro conjI impI)
  assume "mRxLength s = 0"
  then show "ReceiveTask cfg interp [b] s =
              Inr (snd (Output cfg sCommandPrompt (snd (Output cfg CRNL s))))"
    using assms by (auto simp: ReceiveByte_def Let_def)
next
  assume a: "0 < mRxLength s \<and> mRxLength s < length (mRxBuffer s) \<and> mRxLength s < 65536 \<and>
          take (mRxLength s) (mRxBuffer s) \<noteq> [0x0A]"
  let ?N = "mRxLength s"
  let ?s1 = "snd (Output cfg CRNL s)"
  let ?s2 = "?s1\<lparr>mRxBuffer := (mRxBuffer s)[?N := 0]\<rparr>"
  let ?content = "strip_eol (take ?N (mRxBuffer s))"
  let ?calls = "ProcessLine_calls s @ [(?content, length ?content)]"
  have w: "rx_write ?s1 (int ?N) 0 = Inr ?s2"
    using a by (simp add: rx_write_def)
  have l2: "line ?s2 = take ?N (mRxBuffer s)" by (simp add: line_def)
  have h: "0 < mRxLength ?s2" "mRxLength ?s2 \<le> length (mRxBuffer ?s2)" "mRxLength ?s2 < 65536"
    "line ?s2 \<noteq> [0x0A]"
    using a l2 by simp_all
  from ProcessCommand_line [OF h, of cfg interp] obtain buf where
    pc: "ProcessCommand cfg interp ?s2 =
           Inr ((ProcessLine cfg interp
                   (?s2\<lparr>mRxBuffer := buf, mRxLength := length ?content\<rparr>))\<lparr>mRxLength := 0\<rparr>)"
    and tk: "take (length ?content) buf = ?content"
    unfolding l2 by blast
  from pc have pc': "ProcessCommand cfg interp ?s2 =
           Inr ((ProcessLine cfg interp
                   (?s1\<lparr>mRxBuffer := buf, mRxLength := length ?content\<rparr>))\<lparr>mRxLength := 0\<rparr>)"
    by simp
  have pl: "ProcessLine cfg interp (?s1\<lparr>mRxBuffer := buf, mRxLength := length ?content\<rparr>)
      = (fold (\<lambda>w t. snd (Output cfg w t)) (interp ?calls) ?s1)
          \<lparr>mRxBuffer := buf, mRxLength := length ?content, ProcessLine_calls := ?calls\<rparr>"
    by (simp add: ProcessLine_def Let_def tk fold_Output_rx_update)
  have "ReceiveByte cfg interp b s =
      Inr (snd (Output cfg sCommandPrompt
        ((fold (\<lambda>w t. snd (Output cfg w t)) (interp ?calls) ?s1)
          \<lparr>mRxBuffer := buf, mRxLength := length ?content, ProcessLine_calls := ?calls\<rparr>
          \<lparr>mRxLength := 0\<rparr>)))"
    using assms a by (simp add: ReceiveByte_def Let_def w pc' pl)
  then have "ReceiveTask cfg interp [b] s =
      Inr ((snd (Output cfg sCommandPrompt (fold (\<lambda>w t. snd (Output cfg w t)) (interp ?calls) ?s1)))
             \<lparr>mRxBuffer := buf, mRxLength := 0, ProcessLine_calls := ?calls\<rparr>)"
    by (simp add: Output_rx_update)
  then show "let content = strip_eol (take (mRxLength s) (mRxBuffer s));
                 calls = ProcessLine_calls s @ [(content, length content)];
                 tx = snd (Output cfg sCommandPrompt
                            (fold (\<lambda>w t. snd (Output cfg w t)) (interp calls)
                               (snd (Output cfg CRNL s))))
             in \<exists>buf. ReceiveTask cfg interp [b] s =
                   Inr (tx\<lparr>mRxBuffer := buf, mRxLength := 0, ProcessLine_calls := calls\<rparr>)"
    unfolding Let_def by blast
qed

subsection \<open>Echo and dispatch in reachable states\<close>

lemma SendDoneTask_frame [simp]:
  "mRxBuffer (SendDoneTask cfg s) = mRxBuffer s"
  "mRxLength (SendDoneTask cfg s) = mRxLength s"
  "ProcessLine_calls (SendDoneTask cfg s) = ProcessLine_calls s"
  by (simp_all add: SendDoneTask_def)

lemma rx_ok_tx [simp]:
  "rx_ok cfg (Send cfg s) = rx_ok cfg s"
  "rx_ok cfg (snd (Output cfg w s)) = rx_ok cfg s"
  "rx_ok cfg (SendDoneTask cfg s) = rx_ok cfg s"
  by (simp_all add: rx_ok_def line_def)

lemma rx_ok_Uart: "rx_ok cfg (Uart cfg)"
  by (simp add: rx_ok_def line_def Uart_def)

lemma rx_write_rx:
  "rx_write s i c = Inr s' \<Longrightarrow>
   length (mRxBuffer s') = length (mRxBuffer s) \<and> mRxLength s' = mRxLength s"
  by (auto simp: rx_write_def split: if_splits)

lemma strip_step_length:
  "strip_step c s = Inr s' \<Longrightarrow> length (mRxBuffer s') = length (mRxBuffer s)"
  by (auto simp: strip_step_def Let_def split: sum.splits if_splits dest!: rx_write_rx)

lemma ProcessLine_frame [simp]:
  "mRxBuffer (ProcessLine cfg interp s) = mRxBuffer s"
  by (simp add: ProcessLine_def Let_def)

lemma ProcessCommand_rx:
  "ProcessCommand cfg interp s = Inr s' \<Longrightarrow>
   mRxLength s' = 0 \<and> length (mRxBuffer s') = length (mRxBuffer s)"
  by (auto simp: ProcessCommand_def split: sum.splits dest!: strip_step_length)

lemma ReceiveByte_terminator_rx:
  assumes "b = 0x0D \<or> b = 0x0A" "ReceiveByte cfg interp b s = Inr s'"
  shows "mRxLength s' = 0 \<and> length (mRxBuffer s') = length (mRxBuffer s)"
proof (cases "mRxLength s > 0")
  case True
  with assms obtain s2 s3 where
    w: "rx_write (snd (Output cfg CRNL s)) (int (mRxLength s)) 0 = Inr s2"
    and p: "ProcessCommand cfg interp s2 = Inr s3"
    and s': "s' = snd (Output cfg sCommandPrompt s3)"
    by (auto simp: ReceiveByte_def Let_def split: sum.splits)
  from rx_write_rx [OF w] ProcessCommand_rx [OF p] show ?thesis
    unfolding s' by simp
next
  case False
  with assms show ?thesis
    by (auto simp: ReceiveByte_def Let_def)
qed

lemma take_Suc_update:
  "n < length xs \<Longrightarrow> take (Suc n) (xs[n := x]) = take n xs @ [x]"
  by (simp add: take_Suc_conv_app_nth)

lemma rx_ok_ReceiveByte:
  assumes "kRxBufferSize cfg < 65536" "rx_ok cfg s" "ReceiveByte cfg interp b s = Inr s'"
  shows "rx_ok cfg s'"
proof -
  from assms(1,2) have len: "mRxLength s \<le> length (mRxBuffer s)" "mRxLength s < 65536"
    "length (mRxBuffer s) < 65536"
    by (simp_all add: rx_ok_def)
  consider (eol) "b = 0x0D \<or> b = 0x0A"
    | (bs) "b = 0x08 \<or> b = 0x7F"
    | (other) "plain cfg b"
    | (exit) "b \<noteq> 0x0D" "b \<noteq> 0x0A" "examples_posix cfg" "b = 0x03"
    unfolding plain_def by blast
  then show ?thesis
  proof cases
    case eol
    from ReceiveByte_terminator_rx [OF eol assms(3)] assms(2) show ?thesis
      by (simp add: rx_ok_def line_def)
  next
    case bs
    have rb: "ReceiveTask cfg interp [b] s = ReceiveByte cfg interp b s"
      by (simp split: sum.splits)
    show ?thesis
    proof (cases "mRxLength s = 0")
      case True
      with ReceiveTask_backspace [OF bs, of s cfg interp] rb assms(3) have "s' = s" by simp
      with assms(2) show ?thesis by simp
    next
      case False
      with ReceiveTask_backspace [OF bs, of s cfg interp] rb assms(3) len
      have s': "s' = (snd (Output cfg sEraseString s))
                     \<lparr>mRxBuffer := (mRxBuffer s)[mRxLength s - 1 := 0],
                      mRxLength := mRxLength s - 1\<rparr>"
        by simp
      have "line s' = butlast (line s)"
        unfolding s' using len(1) by (simp add: line_def butlast_take)
      then have "set (line s') \<subseteq> set (line s)"
        by (auto dest: in_set_butlastD)
      with assms(2) show ?thesis unfolding s' by (auto simp: rx_ok_def)
    qed
  next
    case other
    from assms(3) have lt: "mRxLength s < length (mRxBuffer s)"
      by (simp add: ReceiveByte_plain [OF other] split: if_splits)
    then have u: "u16 (int (mRxLength s) + 1) = Suc (mRxLength s)"
      using len(3) by (simp add: u16_inc)
    from assms(3) lt have s': "s' = (snd (Output cfg [b] s))
                  \<lparr>mRxBuffer := (mRxBuffer s)[mRxLength s := b],
                   mRxLength := Suc (mRxLength s)\<rparr>"
      by (simp add: ReceiveByte_plain [OF other] u)
    have "line s' = line s @ [b]"
      unfolding s' using lt by (simp add: line_def take_Suc_update)
    moreover have "b \<noteq> 0x0D" "b \<noteq> 0x0A" using other by (simp_all add: plain_def)
    ultimately show ?thesis
      using assms(2) lt unfolding s' by (auto simp: rx_ok_def)
  next
    case exit
    with assms(3) show ?thesis by (simp add: ReceiveByte_def)
  qed
qed

lemma rx_ok_ReceiveTask:
  "kRxBufferSize cfg < 65536 \<Longrightarrow> rx_ok cfg s \<Longrightarrow> ReceiveTask cfg interp bs s = Inr s' \<Longrightarrow>
   rx_ok cfg s'"
proof (induction bs arbitrary: s)
  case Nil
  then show ?case by simp
next
  case (Cons b bs)
  from Cons.prems(3) obtain s1 where b: "ReceiveByte cfg interp b s = Inr s1"
    and r: "ReceiveTask cfg interp bs s1 = Inr s'"
    by (auto split: sum.splits)
  from rx_ok_ReceiveByte [OF Cons.prems(1,2) b] have "rx_ok cfg s1" .
  from Cons.IH [OF Cons.prems(1) this r] show ?case .
qed

lemma reachable_rx_ok:
  "reachable cfg interp s \<Longrightarrow> kRxBufferSize cfg < 65536 \<Longrightarrow> rx_ok cfg s"
proof (induction rule: reachable.induct)
  case constructed
  show ?case by (rule rx_ok_Uart)
next
  case (after_ReceiveTask s aBuf s')
  then show ?case using rx_ok_ReceiveTask by blast
qed simp_all

lemma queued_Output:
  assumes "cfg_ok cfg" "tx_wf cfg s"
  shows "queued cfg (snd (Output cfg w s)) = queued cfg s @ take (kTxBufferSize cfg - mTxLength s) w"
proof -
  from assms have len: "mTxLength s \<le> kTxBufferSize cfg" and c: "0 < kTxBufferSize cfg"
    and l: "length (mTxBuffer s) = kTxBufferSize cfg"
    by (simp_all add: tx_wf_def cfg_ok_def)
  have fit: "mTxLength s + length (take (kTxBufferSize cfg - mTxLength s) w) \<le> kTxBufferSize cfg"
    using len by simp
  have "queued cfg (enqueue cfg (take (kTxBufferSize cfg - mTxLength s) w) s)
        = queued cfg s @ take (kTxBufferSize cfg - mTxLength s) w"
    unfolding enqueue_def by (rule queued_append [OF c l fit])
  then show ?thesis by (simp add: Output_enqueue [OF assms(1) len])
qed

lemma fold_Output_tx:
  assumes "cfg_ok cfg"
  shows "tx_wf cfg s \<Longrightarrow>
         tx_wf cfg (fold (\<lambda>w t. snd (Output cfg w t)) ws s) \<and>
         queued cfg (fold (\<lambda>w t. snd (Output cfg w t)) ws s)
           = queued cfg s @ take (kTxBufferSize cfg - mTxLength s) (concat ws) \<and>
         stream cfg (fold (\<lambda>w t. snd (Output cfg w t)) ws s)
           = stream cfg s @ take (kTxBufferSize cfg - mTxLength s) (concat ws)"
proof (induction ws arbitrary: s)
  case Nil
  then show ?case by simp
next
  case (Cons w ws)
  let ?s1 = "snd (Output cfg w s)"
  let ?r = "kTxBufferSize cfg - mTxLength s"
  from Cons.prems have len: "mTxLength s \<le> kTxBufferSize cfg" by (simp add: tx_wf_def)
  have wf1: "tx_wf cfg ?s1" by (rule tx_wf_Output [OF assms Cons.prems])
  have l1: "kTxBufferSize cfg - mTxLength ?s1 = ?r - length w"
    using len by (simp add: mTxLength_Output [OF assms len] min_def)
  have tk: "take ?r w @ take (?r - length w) (concat ws) = take ?r (concat (w # ws))"
    by simp
  from Cons.IH [OF wf1] show ?case
    unfolding l1
    by (simp add: queued_Output [OF assms Cons.prems] stream_Output [OF assms Cons.prems])
qed

lemma tx_rx_update [simp]:
  "queued cfg (s\<lparr>mRxBuffer := b\<rparr>) = queued cfg s"
  "queued cfg (s\<lparr>mRxLength := n\<rparr>) = queued cfg s"
  "queued cfg (s\<lparr>ProcessLine_calls := c\<rparr>) = queued cfg s"
  "stream cfg (s\<lparr>mRxBuffer := b\<rparr>) = stream cfg s"
  "stream cfg (s\<lparr>mRxLength := n\<rparr>) = stream cfg s"
  "stream cfg (s\<lparr>ProcessLine_calls := c\<rparr>) = stream cfg s"
  by (simp_all add: queued_def stream_def unsent_def)

lemma cfg8_ok: "cfg_ok cfg8" "kRxBufferSize cfg8 < 65536"
  by (simp_all add: cfg_ok_def cfg8_def)

lemma typed_status_reachable: "reachable cfg8 silent typed_status"
proof -
  have "ReceiveTask cfg8 silent [0x73, 0x74, 0x61, 0x74, 0x75, 0x73] (Uart cfg8) = Inr typed_status"
    by code_simp
  with constructed show ?thesis by (rule after_ReceiveTask)
qed

lemma status_drained_reachable: "reachable cfg8 silent status_drained"
proof -
  have "SendDoneTask cfg8 (SendDoneTask cfg8 typed_status) = status_drained"
    by code_simp
  with typed_status_reachable [THEN after_SendDoneTask, THEN after_SendDoneTask]
  show ?thesis by simp
qed

text \<open>
  Claim C9 says that a backspace or delete on a line of \<open>N > 0\<close> bytes emits exactly
  the three-byte erase sequence. The echo goes through \<open>Output\<close>, which accepts only
  what the ring has room for. With a ring of four cells that the echo of four typed
  bytes has filled, a delete takes the last byte off the line and queues nothing: the
  ring and the record of driver calls are as before.
\<close>

theorem backspace_full_ring_counterexample:
  "ReceiveTask cfg84 silent [0x61, 0x61, 0x61, 0x61] (Uart cfg84) = Inr full_ring \<and>
   ReceiveTask cfg84 silent [0x7F] full_ring =
     Inr (full_ring\<lparr>mRxBuffer := [0x61, 0x61, 0x61, 0, 0, 0, 0, 0], mRxLength := 3\<rparr>) \<and>
   queued cfg84 (full_ring\<lparr>mRxBuffer := [0x61, 0x61, 0x61, 0, 0, 0, 0, 0], mRxLength := 3\<rparr>)
     = [0x61, 0x61, 0x61, 0x61]"
  by code_simp

text \<open>
  Claim C9, amended. In every reachable state, a backspace or delete on an empty line
  leaves the state unchanged (no output, length still 0). On a line of \<open>N > 0\<close>
  bytes the length becomes \<open>N - 1\<close>, the line loses its last byte, and the transmit
  ring gains the erase sequence (backspace, space, backspace) cut to the room the ring
  has left, \<open>capacity - queued length\<close>: all three bytes when three cells are free,
  fewer or none otherwise. The same bytes extend the stream that goes to the driver.
\<close>

theorem backspace_queues_erase:
  assumes "b = 0x08 \<or> b = 0x7F"
    and "cfg_ok cfg" and "kRxBufferSize cfg < 65536" and "reachable cfg interp s"
  shows "(mRxLength s = 0 \<longrightarrow> ReceiveTask cfg interp [b] s = Inr s) \<and>
         (0 < mRxLength s \<longrightarrow>
            (\<exists>s'. ReceiveTask cfg interp [b] s = Inr s' \<and>
                  mRxLength s' = mRxLength s - 1 \<and>
                  line s' = butlast (line s) \<and>
                  ProcessLine_calls s' = ProcessLine_calls s \<and>
                  queued cfg s' = queued cfg s @
                    take (kTxBufferSize cfg - mTxLength s) [0x08, 0x20, 0x08] \<and>
                  stream cfg s' = stream cfg s @
                    take (kTxBufferSize cfg - mTxLength s) [0x08, 0x20, 0x08]))"
proof (intro conjI impI)
  assume "mRxLength s = 0"
  with ReceiveTask_backspace [OF assms(1), of s cfg interp]
  show "ReceiveTask cfg interp [b] s = Inr s" by blast
next
  assume pos: "0 < mRxLength s"
  from reachable_rx_ok [OF assms(4,3)] assms(3)
  have len: "mRxLength s \<le> length (mRxBuffer s)" "mRxLength s < 65536"
    by (simp_all add: rx_ok_def)
  from reachable_tx_ok [OF assms(4,2)] have wf: "tx_wf cfg s" by (rule tx_ok_wf)
  let ?s' = "(snd (Output cfg sEraseString s))
               \<lparr>mRxBuffer := (mRxBuffer s)[mRxLength s - 1 := 0],
                mRxLength := mRxLength s - 1\<rparr>"
  from ReceiveTask_backspace [OF assms(1), of s cfg interp] pos len
  have r: "ReceiveTask cfg interp [b] s = Inr ?s'" by blast
  have 1: "line ?s' = butlast (line s)"
    using len(1) by (simp add: line_def butlast_take)
  have 2: "queued cfg ?s' = queued cfg s @
             take (kTxBufferSize cfg - mTxLength s) [0x08, 0x20, 0x08]"
    by (simp add: queued_Output [OF assms(2) wf] sEraseString_def)
  have 3: "stream cfg ?s' = stream cfg s @
             take (kTxBufferSize cfg - mTxLength s) [0x08, 0x20, 0x08]"
    by (simp add: stream_Output [OF assms(2) wf] sEraseString_def)
  have 4: "mRxLength ?s' = mRxLength s - 1" "ProcessLine_calls ?s' = ProcessLine_calls s"
    by simp_all
  from r 1 2 3 4 show "\<exists>s'. ReceiveTask cfg interp [b] s = Inr s' \<and>
                  mRxLength s' = mRxLength s - 1 \<and>
                  line s' = butlast (line s) \<and>
                  ProcessLine_calls s' = ProcessLine_calls s \<and>
                  queued cfg s' = queued cfg s @
                    take (kTxBufferSize cfg - mTxLength s) [0x08, 0x20, 0x08] \<and>
                  stream cfg s' = stream cfg s @
                    take (kTxBufferSize cfg - mTxLength s) [0x08, 0x20, 0x08]"
    by blast
qed

theorem backspace_queues_erase_witness:
  "cfg_ok cfg8 \<and> kRxBufferSize cfg8 < 65536 \<and> reachable cfg8 silent typed_status \<and>
   0 < mRxLength typed_status \<and>
   (\<exists>s'. ReceiveTask cfg8 silent [0x7F] typed_status = Inr s' \<and>
         mRxLength s' = 5 \<and>
         queued cfg8 s' = [0x73, 0x74, 0x61, 0x74, 0x75, 0x73, 0x08, 0x20])"
proof -
  have p: "0 < mRxLength typed_status" by (simp add: typed_status_def)
  have q: "queued cfg8 typed_status = [0x73, 0x74, 0x61, 0x74, 0x75, 0x73]"
    "kTxBufferSize cfg8 - mTxLength typed_status = 2" "mRxLength typed_status - 1 = 5"
    by code_simp+
  from backspace_queues_erase [of "0x7F" cfg8 silent typed_status, OF disjI2 [OF refl]
      cfg8_ok typed_status_reachable] p
  obtain s' where "ReceiveTask cfg8 silent [0x7F] typed_status = Inr s'"
    "mRxLength s' = mRxLength typed_status - 1"
    "queued cfg8 s' = queued cfg8 typed_status @
        take (kTxBufferSize cfg8 - mTxLength typed_status) [0x08, 0x20, 0x08]"
    by blast
  then have "ReceiveTask cfg8 silent [0x7F] typed_status = Inr s' \<and>
         mRxLength s' = 5 \<and>
         queued cfg8 s' = [0x73, 0x74, 0x61, 0x74, 0x75, 0x73, 0x08, 0x20]"
    unfolding q by simp
  with cfg8_ok typed_status_reachable p show ?thesis by blast
qed

lemma strip_eol_id: "0x0D \<notin> set xs \<Longrightarrow> 0x0A \<notin> set xs \<Longrightarrow> strip_eol xs = xs"
  by (cases "xs = []") (auto simp: strip_eol_def Let_def dest: last_in_set)

text \<open>
  Claim C8 says that a carriage return or line feed echoes CRNL and that the prompt is
  emitted again afterwards. Both go through \<open>Output\<close>, which accepts only what the
  ring has room for. With a ring of four cells that the echo of four typed bytes has
  filled, a carriage return hands the line to \<open>ProcessLine\<close> and resets the length,
  but queues neither CRNL nor the prompt.
\<close>

theorem terminator_full_ring_counterexample:
  "ReceiveTask cfg84 silent [0x61, 0x61, 0x61, 0x61] (Uart cfg84) = Inr full_ring \<and>
   ReceiveTask cfg84 silent [0x0D] full_ring =
     Inr (full_ring\<lparr>mRxLength := 0, ProcessLine_calls := [([0x61, 0x61, 0x61, 0x61], 4)]\<rparr>) \<and>
   queued cfg84 (full_ring\<lparr>mRxLength := 0, ProcessLine_calls := [([0x61, 0x61, 0x61, 0x61], 4)]\<rparr>)
     = [0x61, 0x61, 0x61, 0x61]"
  by code_simp

text \<open>
  A line that fills the receive buffer is outside the amended claim below: there the NUL
  that terminates the line is stored one cell past the array. This is the missing bound
  check of claim C1 again.
\<close>

lemma terminator_on_full_line:
  "ReceiveTask cfg4 silent [0x61, 0x61, 0x61, 0x61, 0x0D] (Uart cfg4) = Inl RxBufferOutOfBounds"
  by code_simp

text \<open>
  Claim C8, amended. In every reachable state, on a carriage return or a line feed:
  with an empty line, the transmit ring gains CRNL followed by the prompt, cut to the
  room the ring has left, and \<open>ProcessLine\<close> is not called; with a line of \<open>N > 0\<close>
  bytes shorter than the receive buffer, \<open>ProcessLine\<close> is called exactly once, with
  the accumulated bytes less at most one trailing line feed and one trailing carriage
  return (in a reachable state the line holds neither, so nothing is stripped) and with
  their length, the receive length becomes 0, and the transmit ring gains CRNL, then the
  interpreter's replies, then the prompt, in this order and cut to the room the ring has
  left. The same bytes extend the stream that goes to the driver.
\<close>

theorem terminator_queues_echo:
  assumes "b = 0x0D \<or> b = 0x0A"
    and "cfg_ok cfg" and "kRxBufferSize cfg < 65536" and "reachable cfg interp s"
  shows "(mRxLength s = 0 \<longrightarrow>
            (\<exists>s'. ReceiveTask cfg interp [b] s = Inr s' \<and>
                  mRxLength s' = 0 \<and>
                  ProcessLine_calls s' = ProcessLine_calls s \<and>
                  queued cfg s' = queued cfg s @
                    take (kTxBufferSize cfg - mTxLength s) ([0x0D, 0x0A] @ [0x3E, 0x20]) \<and>
                  stream cfg s' = stream cfg s @
                    take (kTxBufferSize cfg - mTxLength s) ([0x0D, 0x0A] @ [0x3E, 0x20]))) \<and>
         (0 < mRxLength s \<and> mRxLength s < kRxBufferSize cfg \<longrightarrow>
            (let content = strip_eol (line s);
                 calls = ProcessLine_calls s @ [(content, length content)];
                 out = [0x0D, 0x0A] @ concat (interp calls) @ [0x3E, 0x20]
             in content = line s \<and>
                (\<exists>s'. ReceiveTask cfg interp [b] s = Inr s' \<and>
                      mRxLength s' = 0 \<and>
                      ProcessLine_calls s' = calls \<and>
                      queued cfg s' = queued cfg s @ take (kTxBufferSize cfg - mTxLength s) out \<and>
                      stream cfg s' = stream cfg s @ take (kTxBufferSize cfg - mTxLength s) out)))"
proof -
  from reachable_tx_ok [OF assms(4,2)] have wf: "tx_wf cfg s" by (rule tx_ok_wf)
  show ?thesis
  proof (intro conjI impI)
    assume z: "mRxLength s = 0"
    let ?s' = "fold (\<lambda>w t. snd (Output cfg w t)) [CRNL, sCommandPrompt] s"
    from ReceiveTask_terminator [OF assms(1), of s cfg interp] z
    have r: "ReceiveTask cfg interp [b] s = Inr ?s'" by simp
    from fold_Output_tx [OF assms(2) wf, of "[CRNL, sCommandPrompt]"]
    have "queued cfg ?s' = queued cfg s @
            take (kTxBufferSize cfg - mTxLength s) ([0x0D, 0x0A] @ [0x3E, 0x20])"
      "stream cfg ?s' = stream cfg s @
            take (kTxBufferSize cfg - mTxLength s) ([0x0D, 0x0A] @ [0x3E, 0x20])"
      by (simp_all add: CRNL_def sCommandPrompt_def)
    moreover have "mRxLength ?s' = 0" "ProcessLine_calls ?s' = ProcessLine_calls s"
      using z by simp_all
    ultimately show "\<exists>s'. ReceiveTask cfg interp [b] s = Inr s' \<and>
                  mRxLength s' = 0 \<and>
                  ProcessLine_calls s' = ProcessLine_calls s \<and>
                  queued cfg s' = queued cfg s @
                    take (kTxBufferSize cfg - mTxLength s) ([0x0D, 0x0A] @ [0x3E, 0x20]) \<and>
                  stream cfg s' = stream cfg s @
                    take (kTxBufferSize cfg - mTxLength s) ([0x0D, 0x0A] @ [0x3E, 0x20])"
      using r by blast
  next
    assume a: "0 < mRxLength s \<and> mRxLength s < kRxBufferSize cfg"
    from reachable_rx_ok [OF assms(4,3)]
    have rx: "length (mRxBuffer s) = kRxBufferSize cfg" "0x0D \<notin> set (line s)" "0x0A \<notin> set (line s)"
      by (simp_all add: rx_ok_def)
    let ?content = "strip_eol (line s)"
    let ?calls = "ProcessLine_calls s @ [(?content, length ?content)]"
    let ?out = "[0x0D, 0x0A] @ concat (interp ?calls) @ [0x3E, 0x20]"
    let ?tx = "fold (\<lambda>w t. snd (Output cfg w t)) (CRNL # interp ?calls @ [sCommandPrompt]) s"
    have id: "?content = line s" by (rule strip_eol_id [OF rx(2,3)])
    have "line s \<noteq> [0x0A]" using rx(3) by auto
    with a rx(1) assms(3) have h: "0 < mRxLength s \<and> mRxLength s < length (mRxBuffer s) \<and>
        mRxLength s < 65536 \<and> take (mRxLength s) (mRxBuffer s) \<noteq> [0x0A]"
      by (simp add: line_def)
    from ReceiveTask_terminator [OF assms(1), of s cfg interp] h
    obtain buf where r: "ReceiveTask cfg interp [b] s =
        Inr (?tx\<lparr>mRxBuffer := buf, mRxLength := 0, ProcessLine_calls := ?calls\<rparr>)"
      unfolding Let_def line_def [symmetric] by auto
    from fold_Output_tx [OF assms(2) wf, of "CRNL # interp ?calls @ [sCommandPrompt]"]
    have q: "queued cfg ?tx = queued cfg s @ take (kTxBufferSize cfg - mTxLength s) ?out"
      "stream cfg ?tx = stream cfg s @ take (kTxBufferSize cfg - mTxLength s) ?out"
      by (simp_all add: CRNL_def sCommandPrompt_def)
    let ?s' = "?tx\<lparr>mRxBuffer := buf, mRxLength := 0, ProcessLine_calls := ?calls\<rparr>"
    have "mRxLength ?s' = 0" "ProcessLine_calls ?s' = ?calls"
      "queued cfg ?s' = queued cfg s @ take (kTxBufferSize cfg - mTxLength s) ?out"
      "stream cfg ?s' = stream cfg s @ take (kTxBufferSize cfg - mTxLength s) ?out"
      using q by simp_all
    with r have "\<exists>s'. ReceiveTask cfg interp [b] s = Inr s' \<and>
                      mRxLength s' = 0 \<and>
                      ProcessLine_calls s' = ?calls \<and>
                      queued cfg s' = queued cfg s @ take (kTxBufferSize cfg - mTxLength s) ?out \<and>
                      stream cfg s' = stream cfg s @ take (kTxBufferSize cfg - mTxLength s) ?out"
      by blast
    with id show "let content = strip_eol (line s);
                 calls = ProcessLine_calls s @ [(content, length content)];
                 out = [0x0D, 0x0A] @ concat (interp calls) @ [0x3E, 0x20]
             in content = line s \<and>
                (\<exists>s'. ReceiveTask cfg interp [b] s = Inr s' \<and>
                      mRxLength s' = 0 \<and>
                      ProcessLine_calls s' = calls \<and>
                      queued cfg s' = queued cfg s @ take (kTxBufferSize cfg - mTxLength s) out \<and>
                      stream cfg s' = stream cfg s @ take (kTxBufferSize cfg - mTxLength s) out)"
      unfolding Let_def by blast
  qed
qed

theorem terminator_queues_echo_witness:
  "cfg_ok cfg8 \<and> kRxBufferSize cfg8 < 65536 \<and> reachable cfg8 silent status_drained \<and>
   0 < mRxLength status_drained \<and> mRxLength status_drained < kRxBufferSize cfg8 \<and>
   (\<exists>s'. ReceiveTask cfg8 silent [0x0D] status_drained = Inr s' \<and>
         mRxLength s' = 0 \<and>
         ProcessLine_calls s' = [([0x73, 0x74, 0x61, 0x74, 0x75, 0x73], 6)] \<and>
         queued cfg8 s' = [0x0D, 0x0A, 0x3E, 0x20])"
proof -
  have p: "0 < mRxLength status_drained \<and> mRxLength status_drained < kRxBufferSize cfg8"
    by (simp add: status_drained_def cfg8_def)
  have q: "queued cfg8 status_drained = []"
    "kTxBufferSize cfg8 - mTxLength status_drained = 8"
    "ProcessLine_calls status_drained @
       [(strip_eol (line status_drained), length (strip_eol (line status_drained)))]
     = [([0x73, 0x74, 0x61, 0x74, 0x75, 0x73], 6)]"
    by code_simp+
  from terminator_queues_echo [of "0x0D" cfg8 silent status_drained, OF disjI1 [OF refl]
      cfg8_ok status_drained_reachable] p
  obtain s' where "ReceiveTask cfg8 silent [0x0D] status_drained = Inr s'"
    "mRxLength s' = 0"
    "ProcessLine_calls s' = ProcessLine_calls status_drained @
       [(strip_eol (line status_drained), length (strip_eol (line status_drained)))]"
    "queued cfg8 s' = queued cfg8 status_drained @
        take (kTxBufferSize cfg8 - mTxLength status_drained)
          ([0x0D, 0x0A] @
           concat (silent (ProcessLine_calls status_drained @
             [(strip_eol (line status_drained), length (strip_eol (line status_drained)))])) @
           [0x3E, 0x20])"
    unfolding Let_def by blast
  then have "ReceiveTask cfg8 silent [0x0D] status_drained = Inr s' \<and>
         mRxLength s' = 0 \<and>
         ProcessLine_calls s' = [([0x73, 0x74, 0x61, 0x74, 0x75, 0x73], 6)] \<and>
         queued cfg8 s' = [0x0D, 0x0A, 0x3E, 0x20]"
    unfolding q by (simp add: silent_def)
  with cfg8_ok status_drained_reachable p show ?thesis by blast
qed

end
